theory Spec2Isabelle
  imports Main "HOL-Library.Word"
begin

unbundle bit_operations_syntax

section \<open>Configuration of the surface atlas\<close>

text \<open>
  The constants of \<^verbatim>\<open>GlobalSurfaceAtlasPass.cpp\<close>. Tile sizes are \<^verbatim>\<open>uint16\<close>,
  frame counters \<^verbatim>\<open>uint64\<close>, buffer sizes and counters \<^verbatim>\<open>uint32\<close>.
\<close>

type_synonym uint16 = "16 word"
type_synonym uint32 = "32 word"
type_synonym uint64 = "64 word"

definition GLOBAL_SURFACE_ATLAS_TILE_SIZE_MIN :: uint16 where
  "GLOBAL_SURFACE_ATLAS_TILE_SIZE_MIN = 8"

definition GLOBAL_SURFACE_ATLAS_TILE_SIZE_MAX :: uint16 where
  "GLOBAL_SURFACE_ATLAS_TILE_SIZE_MAX = 192"

definition tileRefitResolutionStep :: uint16 where
  "tileRefitResolutionStep = 32"

definition MAX_int32 :: uint32 where
  "MAX_int32 = 2147483647"

section \<open>Arithmetic helpers\<close>

definition Clamp :: "'a::linorder \<Rightarrow> 'a \<Rightarrow> 'a \<Rightarrow> 'a" where
  \<comment> \<open>Modelled from the spec: \<^verbatim>\<open>Math::Clamp\<close> (Engine/Core/Math/Math.h is not among the
      sources); "clamp resolution into [min, max]".\<close>
  "Clamp v lo hi = (if v < lo then lo else if v < hi then v else hi)"

definition AlignDown :: "'a::len word \<Rightarrow> 'a word \<Rightarrow> 'a word" where
  \<comment> \<open>Modelled from the spec: \<^verbatim>\<open>Math::AlignDown\<close> (Engine/Core/Math/Math.h is not among
      the sources); "round down to a fixed alignment (multiple of 8)".\<close>
  "AlignDown v a = (v div a) * a"

definition AlignUp :: "'a::len word \<Rightarrow> 'a word \<Rightarrow> 'a word" where
  \<comment> \<open>Modelled from the spec: \<^verbatim>\<open>Math::AlignUp\<close> (Engine/Core/Math/Math.h is not among the
      sources): the next multiple of the alignment, computed in the width of the operand,
      so the addition wraps as the machine's does.\<close>
  "AlignUp v a = ((v + (a - 1)) div a) * a"

section \<open>Tile resolution of one face\<close>

text \<open>
  \<^verbatim>\<open>RasterizeActor\<close>, the lines after the too-small test: the resolution of the face
  (already cast to \<^verbatim>\<open>uint16\<close>) is clamped and then snapped down to 8 texels. The
  floating-point product that yields the resolution is an input of the model.
\<close>

definition tileResolution :: "uint16 \<Rightarrow> uint16" where
  "tileResolution r =
     AlignDown (Clamp r GLOBAL_SURFACE_ATLAS_TILE_SIZE_MIN GLOBAL_SURFACE_ATLAS_TILE_SIZE_MAX) 8"

section \<open>The rectangle packer\<close>

text \<open>
  \<^verbatim>\<open>GlobalSurfaceAtlasTile\<close> derives from \<^verbatim>\<open>RectPack<GlobalSurfaceAtlasTile, uint16>\<close>.
  Engine/Utilities/RectPack.h is not among the sources, so the packer is modelled from the
  spec (section 4.1): a free-space packer over integer texel coordinates whose \<^verbatim>\<open>Insert\<close>
  takes the first free rectangle that is large enough, cuts the requested size out of it and
  leaves at most two free children; \<^verbatim>\<open>Free\<close> returns a rectangle to the free set;
  nothing is merged. The spec fixes this contract and not the links between the nodes, so the
  nodes are kept as a sequence in the order of their creation. A tile pointer is the position
  of the node in that sequence; it never changes while the packer lives.

  Only the placement of a tile is modelled. Its view vectors and matrix are floating-point
  data, and its two buffer addresses play no part in what is proved here.
\<close>

record tile =
  X :: nat
  Y :: nat
  Width :: nat
  Height :: nat
  IsUsed :: bool

type_synonym packer = "tile list"

definition free_tile :: "nat \<Rightarrow> nat \<Rightarrow> nat \<Rightarrow> nat \<Rightarrow> tile" where
  "free_tile x y w h = \<lparr>X = x, Y = y, Width = w, Height = h, IsUsed = False\<rparr>"

definition fits :: "nat \<Rightarrow> nat \<Rightarrow> tile \<Rightarrow> bool" where
  "fits w h t = (\<not> IsUsed t \<and> w \<le> Width t \<and> h \<le> Height t)"

fun find_free :: "nat \<Rightarrow> nat \<Rightarrow> tile list \<Rightarrow> nat option" where
  \<comment> \<open>Modelled from the spec: the first free rectangle that is large enough.\<close>
  "find_free w h [] = None"
| "find_free w h (t # ts) =
     (if fits w h t then Some 0 else map_option Suc (find_free w h ts))"

definition split_children :: "nat \<Rightarrow> nat \<Rightarrow> tile \<Rightarrow> tile list" where
  \<comment> \<open>Modelled from the spec: the at most two free children that remain of a rectangle
      once the requested size is cut from its corner. The spec leaves the direction of the
      cut open; here the larger remainder stays in one piece.\<close>
  "split_children w h t =
     (let remainingWidth = Width t - w; remainingHeight = Height t - h
      in filter (\<lambda>c. 0 < Width c \<and> 0 < Height c)
           (if remainingHeight \<le> remainingWidth
            then [free_tile (X t) (Y t + h) w remainingHeight,
                  free_tile (X t + w) (Y t) remainingWidth (Height t)]
            else [free_tile (X t + w) (Y t) remainingWidth h,
                  free_tile (X t) (Y t + h) (Width t) remainingHeight]))"

definition Insert :: "nat \<Rightarrow> nat \<Rightarrow> packer \<Rightarrow> nat option \<times> packer" where
  \<comment> \<open>Modelled from the spec: \<^verbatim>\<open>RectPack::Insert\<close> (Engine/Utilities/RectPack.h is not
      among the sources). The result is the new tile or null, and the packer. The call in
      \<^verbatim>\<open>RasterizeActor\<close> passes padding 0; \<^verbatim>\<open>OnInsert\<close> is part of \<open>face\<close>.\<close>
  "Insert w h p =
     (case find_free w h p of
        None \<Rightarrow> (None, p)
      | Some i \<Rightarrow>
          (Some i,
           p[i := (p ! i)\<lparr>Width := w, Height := h, IsUsed := True\<rparr>] @ split_children w h (p ! i)))"

definition Free :: "nat \<Rightarrow> packer \<Rightarrow> packer" where
  \<comment> \<open>Modelled from the spec: \<^verbatim>\<open>RectPack::Free\<close> (Engine/Utilities/RectPack.h is not
      among the sources); \<^verbatim>\<open>OnFree\<close> is empty.\<close>
  "Free i p = (if i < length p then p[i := (p ! i)\<lparr>IsUsed := False\<rparr>] else p)"

definition overlap :: "tile \<Rightarrow> tile \<Rightarrow> bool" where
  "overlap a b =
     (max (X a) (X b) < min (X a + Width a) (X b + Width b) \<and>
      max (Y a) (Y b) < min (Y a + Height a) (Y b + Height b))"

definition inside :: "nat \<Rightarrow> tile \<Rightarrow> bool" where
  "inside R t = (X t + Width t \<le> R \<and> Y t + Height t \<le> R)"

fun disjoint_tiles :: "tile list \<Rightarrow> bool" where
  "disjoint_tiles [] = True"
| "disjoint_tiles (t # ts) = ((\<forall>u \<in> set ts. \<not> overlap t u) \<and> disjoint_tiles ts)"

definition live_tiles :: "packer \<Rightarrow> tile list" where
  "live_tiles p = filter IsUsed p"

definition packing_valid :: "nat \<Rightarrow> packer \<Rightarrow> bool" where
  "packing_valid R p =
     (disjoint_tiles (live_tiles p) \<and> (\<forall>t \<in> set (live_tiles p). inside R t))"

definition all_tiles_ok :: "nat \<Rightarrow> packer \<Rightarrow> bool" where
  "all_tiles_ok R p = (disjoint_tiles p \<and> (\<forall>t \<in> set p. inside R t))"

datatype packer_op = DoInsert nat nat | DoFree nat

fun apply_op :: "packer_op \<Rightarrow> packer \<Rightarrow> packer" where
  "apply_op (DoInsert w h) p = snd (Insert w h p)"
| "apply_op (DoFree i) p = Free i p"


section \<open>The object cache\<close>

text \<open>
  \<^verbatim>\<open>GlobalSurfaceAtlasObject\<close>. An actor and an actor object (\<^verbatim>\<open>void*\<close>) are pointers,
  modelled as numbers; the six tile pointers are positions in the packer or null. The
  radius and the oriented bounds are floating-point data and are left out.
\<close>

record GlobalSurfaceAtlasObject =
  LastFrameUsed :: uint64
  LastFrameDirty :: uint64
  Actor :: nat
  Tiles :: "nat option list"

definition GlobalSurfaceAtlasObject_new :: GlobalSurfaceAtlasObject where
  \<comment> \<open>The default constructor clears the whole object.\<close>
  "GlobalSurfaceAtlasObject_new =
     \<lparr>LastFrameUsed = 0, LastFrameDirty = 0, Actor = 0, Tiles = replicate 6 None\<rparr>"

type_synonym objects = "(nat \<times> GlobalSurfaceAtlasObject) list"

definition TryGet :: "nat \<Rightarrow> objects \<Rightarrow> GlobalSurfaceAtlasObject option" where
  \<comment> \<open>Modelled from the spec: \<^verbatim>\<open>Dictionary::TryGet\<close> (Engine/Core/Collections/Dictionary.h
      is not among the sources); the cache is a handle-keyed mapping.\<close>
  "TryGet k objs = map_of objs k"

definition At :: "nat \<Rightarrow> objects \<Rightarrow> objects" where
  \<comment> \<open>Modelled from the spec: \<^verbatim>\<open>Dictionary::operator[]\<close>, which adds a default entry
      under a key that has none.\<close>
  "At k objs = (if map_of objs k = None then objs @ [(k, GlobalSurfaceAtlasObject_new)] else objs)"

definition modify ::
  "nat \<Rightarrow> (GlobalSurfaceAtlasObject \<Rightarrow> GlobalSurfaceAtlasObject) \<Rightarrow> objects \<Rightarrow> objects" where
  \<comment> \<open>A write through a pointer to the entry of a key.\<close>
  "modify k f objs = map (\<lambda>(k', ob). if k' = k then (k', f ob) else (k', ob)) objs"

text \<open>
  The state: the fields of \<^verbatim>\<open>GlobalSurfaceAtlasCustomBuffer\<close> followed by the members of
  the pass that \<^verbatim>\<open>Render\<close> and \<^verbatim>\<open>RasterizeActor\<close> use. The empty sequence of tiles
  stands for the null \<^verbatim>\<open>AtlasTiles\<close> pointer, \<open>None\<close> for a null culled-objects buffer
  and \<open>Some n\<close> for one of \<open>n\<close> bytes. The atlas textures are left out.
\<close>

record GlobalSurfaceAtlasData =
  CustomBuffer_LastFrameUsed :: uint64
  Resolution :: int
  LastFrameAtlasInsertFail :: uint64
  LastFrameAtlasDefragmentation :: uint64
  ChunksBuffer :: bool
  CulledObjectsBuffer :: "uint32 option"
  CulledObjectsCounterIndex :: int
  AtlasTiles :: packer
  Objects :: objects
  CurrentFrame :: uint64
  dirtyObjectsBuffer :: "nat list"
  culledObjectsSizeBuffer :: bool
  culledObjectsSizeFrames :: "uint64 list"

definition ClearObjects :: "uint64 \<Rightarrow> GlobalSurfaceAtlasData \<Rightarrow> GlobalSurfaceAtlasData" where
  \<comment> \<open>The first argument is \<^verbatim>\<open>Engine::FrameCount\<close>.\<close>
  "ClearObjects FrameCount d =
     d\<lparr>CulledObjectsCounterIndex := - 1,
       LastFrameAtlasDefragmentation := FrameCount,
       AtlasTiles := [],
       Objects := []\<rparr>"

definition Clear :: "uint64 \<Rightarrow> GlobalSurfaceAtlasData \<Rightarrow> GlobalSurfaceAtlasData" where
  \<comment> \<open>Releases the six atlas textures, then clears the objects.\<close>
  "Clear FrameCount d = ClearObjects FrameCount d"

section \<open>RasterizeActor\<close>

text \<open>
  The arguments of one call. \<open>faceResolution\<close> gives, for each of the six faces, the
  value of \<^verbatim>\<open>(uint16)(boundsSizeTile.GetAbsolute().MinValue() * tilesScale)\<close>: that product
  is floating-point arithmetic on the bounds and the view distance and enters the model as
  data. \<open>actorStatic\<close> is \<^verbatim>\<open>actor->HasStaticFlag(StaticFlags::Lightmap)\<close> and \<open>actorID_D\<close>
  is \<^verbatim>\<open>actor->GetID().D\<close>.
\<close>

record rasterize_args =
  actor :: nat
  actorStatic :: bool
  actorID_D :: uint32
  actorObject :: nat
  tilesMask :: uint32
  faceResolution :: "nat \<Rightarrow> uint16"

definition set_tile ::
  "nat \<Rightarrow> nat \<Rightarrow> nat option \<Rightarrow> GlobalSurfaceAtlasData \<Rightarrow> GlobalSurfaceAtlasData" where
  \<comment> \<open>\<^verbatim>\<open>object->Tiles[tileIndex] = tile\<close>\<close>
  "set_tile k tileIndex t d =
     d\<lparr>Objects := modify k (\<lambda>ob. ob\<lparr>Tiles := (Tiles ob)[tileIndex := t]\<rparr>) (Objects d)\<rparr>"

definition face ::
  "rasterize_args \<Rightarrow> nat \<Rightarrow> GlobalSurfaceAtlasData \<times> bool \<times> bool
     \<Rightarrow> GlobalSurfaceAtlasData \<times> bool \<times> bool" where
  \<comment> \<open>One turn of the loop over the faces; the state carries \<^verbatim>\<open>anyTile\<close> and
      \<^verbatim>\<open>dirty\<close>. The local pointer \<^verbatim>\<open>object\<close> is non-null exactly when the cache has an
      entry for the actor object, so it is read from the cache each time.\<close>
  "face a tileIndex st =
     (case st of (d, anyTile, dirty) \<Rightarrow>
        if push_bit tileIndex 1 AND tilesMask a = 0 then st
        else
          let object = TryGet (actorObject a) (Objects d);
              tile = (case object of None \<Rightarrow> None | Some ob \<Rightarrow> Tiles ob ! tileIndex);
              r = faceResolution a tileIndex
          in
            if r < 4 then
              (case tile of
                 None \<Rightarrow> st
               | Some t \<Rightarrow>
                   (set_tile (actorObject a) tileIndex None
                      (d\<lparr>AtlasTiles := Free t (AtlasTiles d)\<rparr>), anyTile, dirty))
            else
              let res = tileResolution r in
              if (case tile of
                    None \<Rightarrow> False
                  | Some t \<Rightarrow>
                      \<bar>uint res - int (Width (AtlasTiles d ! t))\<bar> < uint tileRefitResolutionStep)
              then (d, True, dirty)
              else
                let d1 = (case tile of
                            None \<Rightarrow> d
                          | Some t \<Rightarrow> d\<lparr>AtlasTiles := Free t (AtlasTiles d)\<rparr>);
                    ins = Insert (unat res) (unat res) (AtlasTiles d1);
                    d2 = d1\<lparr>AtlasTiles := snd ins\<rparr>
                in
                  (case fst ins of
                     Some t \<Rightarrow>
                       (set_tile (actorObject a) tileIndex (Some t)
                          (d2\<lparr>Objects := At (actorObject a) (Objects d2)\<rparr>), True, True)
                   | None \<Rightarrow>
                       ((if object \<noteq> None then set_tile (actorObject a) tileIndex None d2 else d2)
                          \<lparr>LastFrameAtlasInsertFail := CurrentFrame d2\<rparr>, anyTile, dirty)))"

definition redrawFramesCount :: "rasterize_args \<Rightarrow> uint32" where
  "redrawFramesCount a = (if actorStatic a then 120 else 4)"

definition RasterizeActor :: "rasterize_args \<Rightarrow> GlobalSurfaceAtlasData \<Rightarrow> GlobalSurfaceAtlasData" where
  \<comment> \<open>The loop over the faces, the early return without any tile, the time-sliced redraw
      and the marking of the object as used. Writing the object and tile data into the
      objects buffer (floating-point matrices) is left out. \<^verbatim>\<open>anyTile\<close> implies an entry
      (lemma \<open>faces_any_entry\<close>), so the first case below is never taken.\<close>
  "RasterizeActor a d0 =
     (case fold (face a) [0..<6] (d0, False, False) of (d, anyTile, dirty) \<Rightarrow>
        if \<not> anyTile then d
        else
          (case TryGet (actorObject a) (Objects d) of
             None \<Rightarrow> d
           | Some object \<Rightarrow>
               let dirty' = (dirty \<or>
                     CurrentFrame d - LastFrameDirty object
                       \<ge> ucast (redrawFramesCount a + (actorID_D a AND redrawFramesCount a)));
                   d1 = d\<lparr>Objects := modify (actorObject a)
                           (\<lambda>ob. ob\<lparr>Actor := actor a, LastFrameUsed := CurrentFrame d\<rparr>) (Objects d)\<rparr>
               in
                 if dirty'
                 then d1\<lparr>Objects := modify (actorObject a)
                           (\<lambda>ob. ob\<lparr>LastFrameDirty := CurrentFrame d\<rparr>) (Objects d1),
                         dirtyObjectsBuffer := dirtyObjectsBuffer d1 @ [actorObject a]\<rparr>
                 else d1))"

section \<open>Render\<close>

text \<open>
  What one call of \<^verbatim>\<open>Render\<close> receives from the engine: the results of the tests at its
  head, the frame counter, the configured resolution, whether the render-target pool and
  the device deliver the resources asked for, the calls of \<^verbatim>\<open>RasterizeActor\<close> made by the
  actors drawn in the scene loop, the mapped contents of the read-back buffer (\<open>None\<close> when
  \<^verbatim>\<open>Map\<close> returns null) and the estimate
  \<^verbatim>\<open>(uint32)((float)_objectsBuffer->Data.Count() * 1.3f)\<close>, a floating-point product.
  \<^verbatim>\<open>GPUBuffer\<close> is not among the sources: a failed \<^verbatim>\<open>Init\<close> of the culled-objects buffer
  leaves it with a size that is an input here.
\<close>

record platform =
  GPU_MAX_TEXTURE_SIZE :: int
  GPU_ASYNC_LATENCY :: uint64

datatype init_result = InitOk | InitFailed uint32

record frame_env =
  checkIfSkipPass :: bool
  ScenesCount :: nat
  sdfRenderFails :: bool
  FrameCount :: uint64
  GlobalSurfaceAtlasResolution :: int
  texturesAvailable :: bool
  chunksBufferInitFails :: bool
  draws :: "rasterize_args list"
  sizeBufferInitFails :: bool
  Map :: "(nat \<Rightarrow> uint32) option"
  objectsBufferEstimate :: uint32
  culledObjectsBufferInit :: init_result

text \<open>
  \<^verbatim>\<open>Render\<close> returns a \<^verbatim>\<open>bool\<close>: \<^verbatim>\<open>true\<close> from every early return but one,
  \<^verbatim>\<open>false\<close> when the frame was already done, and \<^verbatim>\<open>notReady\<close> at its end.
\<close>

datatype render_result = Return_true | Return_cached | Return_notReady bool

fun returned :: "render_result \<Rightarrow> bool" where
  "returned Return_true = True"
| "returned Return_cached = False"
| "returned (Return_notReady notReady) = notReady"

definition InitializeBuffers ::
  "frame_env \<Rightarrow> uint64 \<Rightarrow> int \<Rightarrow> GlobalSurfaceAtlasData \<Rightarrow> bool \<times> GlobalSurfaceAtlasData" where
  \<comment> \<open>"Initialize buffers": the first component tells that \<^verbatim>\<open>Render\<close> returns
      \<^verbatim>\<open>true\<close> from here.\<close>
  "InitializeBuffers e currentFrame resolution d =
     (if Resolution d \<noteq> resolution then
        let d1 = Clear currentFrame d in
        if \<not> texturesAvailable e then (True, d1)
        else
          let d2 = d1\<lparr>Resolution := resolution\<rparr> in
          if \<not> ChunksBuffer d2
          then (chunksBufferInitFails e, d2\<lparr>ChunksBuffer := True\<rparr>)
          else (False, d2)
      else if currentFrame - LastFrameAtlasInsertFail d < 10 \<and>
              currentFrame - LastFrameAtlasDefragmentation d > 60
      then (False, ClearObjects currentFrame d)
      else (False, d))"

definition NewAtlasTiles :: "int \<Rightarrow> GlobalSurfaceAtlasData \<Rightarrow> GlobalSurfaceAtlasData" where
  \<comment> \<open>\<^verbatim>\<open>if (!AtlasTiles) AtlasTiles = New<GlobalSurfaceAtlasTile>(0, 0, resolution, resolution)\<close>;
      the constructor takes \<^verbatim>\<open>uint16\<close>.\<close>
  "NewAtlasTiles resolution d =
     (if AtlasTiles d = []
      then d\<lparr>AtlasTiles := [free_tile 0 0 (nat (resolution mod 65536)) (nat (resolution mod 65536))]\<rparr>
      else d)"

definition AddObjects :: "frame_env \<Rightarrow> uint64 \<Rightarrow> GlobalSurfaceAtlasData \<Rightarrow> GlobalSurfaceAtlasData" where
  \<comment> \<open>"Add objects into the atlas": every drawn actor calls \<^verbatim>\<open>RasterizeActor\<close>.\<close>
  "AddObjects e currentFrame d =
     fold RasterizeActor (draws e) (d\<lparr>dirtyObjectsBuffer := [], CurrentFrame := currentFrame\<rparr>)"

definition free_tiles :: "nat option list \<Rightarrow> packer \<Rightarrow> packer" where
  \<comment> \<open>\<^verbatim>\<open>for (auto& tile : it->Value.Tiles) if (tile) tile->Free();\<close>\<close>
  "free_tiles ts p = fold (\<lambda>tile q. case tile of None \<Rightarrow> q | Some t \<Rightarrow> Free t q) ts p"

fun remove_unused :: "uint64 \<Rightarrow> objects \<Rightarrow> packer \<Rightarrow> objects \<times> packer" where
  "remove_unused currentFrame [] p = ([], p)"
| "remove_unused currentFrame ((k, ob) # es) p =
     (if LastFrameUsed ob \<noteq> currentFrame
      then remove_unused currentFrame es (free_tiles (Tiles ob) p)
      else (case remove_unused currentFrame es p of (es', p') \<Rightarrow> ((k, ob) # es', p')))"

definition RemoveUnusedObjects :: "uint64 \<Rightarrow> GlobalSurfaceAtlasData \<Rightarrow> GlobalSurfaceAtlasData" where
  \<comment> \<open>"Remove unused objects"\<close>
  "RemoveUnusedObjects currentFrame d =
     (case remove_unused currentFrame (Objects d) (AtlasTiles d) of
        (es, p) \<Rightarrow> d\<lparr>Objects := es, AtlasTiles := p\<rparr>)"

fun find_timer_slot :: "uint64 \<Rightarrow> uint64 \<Rightarrow> uint64 list \<Rightarrow> nat option" where
  \<comment> \<open>"Find a free timer slot": the first \<open>i\<close> with
      \<^verbatim>\<open>currentFrame - _culledObjectsSizeFrames[i] > GPU_ASYNC_LATENCY\<close>.\<close>
  "find_timer_slot currentFrame latency [] = None"
| "find_timer_slot currentFrame latency (f # fs) =
     (if currentFrame - f > latency then Some 0
      else map_option Suc (find_timer_slot currentFrame latency fs))"

definition ReadCounter ::
  "platform \<Rightarrow> frame_env \<Rightarrow> uint64 \<Rightarrow> GlobalSurfaceAtlasData
     \<Rightarrow> bool \<times> uint32 \<times> GlobalSurfaceAtlasData" where
  \<comment> \<open>The block under \<^verbatim>\<open>if (surfaceAtlasData.ChunksBuffer)\<close>, once the read-back
      buffer exists: the result is \<^verbatim>\<open>notReady\<close>, \<^verbatim>\<open>objectsBufferCapacity\<close> and the
      state. \<^verbatim>\<open>sizeof(Float4)\<close> is 16.\<close>
  "ReadCounter pf e currentFrame d =
     (let index = CulledObjectsCounterIndex d;
          counter = (case Map e of None \<Rightarrow> 0 | Some data \<Rightarrow> data (nat index));
          sampled = (index \<noteq> - 1 \<and> Map e \<noteq> None \<and> counter > 0);
          objectsBufferCapacity = (if sampled then counter * 16 else objectsBufferEstimate e);
          notReady = (if index \<noteq> - 1 then \<not> sampled else True);
          index' = (if index = - 1
                    then (case find_timer_slot currentFrame (GPU_ASYNC_LATENCY pf)
                                 (culledObjectsSizeFrames d) of
                            None \<Rightarrow> - 1
                          | Some i \<Rightarrow> int i)
                    else index);
          d1 = d\<lparr>CulledObjectsCounterIndex := index'\<rparr>;
          d2 = (if index' \<noteq> - 1
                then d1\<lparr>culledObjectsSizeFrames :=
                          (culledObjectsSizeFrames d1)[nat index' := currentFrame]\<rparr>
                else d1)
      in (notReady, objectsBufferCapacity, d2))"

definition CullObjects ::
  "platform \<Rightarrow> frame_env \<Rightarrow> uint64 \<Rightarrow> GlobalSurfaceAtlasData
     \<Rightarrow> render_result \<times> GlobalSurfaceAtlasData" where
  \<comment> \<open>"Cull objects into chunks", up to the allocation of the culled-objects buffer. The
      dispatch of the compute shader is left out.\<close>
  "CullObjects pf e currentFrame d =
     (if Objects d = [] then (Return_notReady False, d)
      else
        let created = (ChunksBuffer d \<and> \<not> culledObjectsSizeBuffer d);
            d1 = (if created
                  then d\<lparr>culledObjectsSizeFrames :=
                           replicate (length (culledObjectsSizeFrames d)) 0,
                         culledObjectsSizeBuffer := True\<rparr>
                  else d)
        in
          if created \<and> sizeBufferInitFails e then (Return_true, d1)
          else
            let rc = (if ChunksBuffer d1 then ReadCounter pf e currentFrame d1
                      else (False, objectsBufferEstimate e, d1));
                notReady = fst rc;
                d2 = snd (snd rc);
                objectsBufferCapacity = min (AlignUp (fst (snd rc)) 4096) MAX_int32;
                size = (case CulledObjectsBuffer d2 of None \<Rightarrow> 0 | Some n \<Rightarrow> n)
            in
              if size < objectsBufferCapacity then
                (case culledObjectsBufferInit e of
                   InitOk \<Rightarrow>
                     (Return_notReady notReady, d2\<lparr>CulledObjectsBuffer := Some objectsBufferCapacity\<rparr>)
                 | InitFailed n \<Rightarrow> (Return_true, d2\<lparr>CulledObjectsBuffer := Some n\<rparr>))
              else (Return_notReady notReady, d2\<lparr>CulledObjectsBuffer := Some size\<rparr>))"

definition Render ::
  "platform \<Rightarrow> frame_env \<Rightarrow> GlobalSurfaceAtlasData \<Rightarrow> render_result \<times> GlobalSurfaceAtlasData" where
  "Render pf e d =
     (if checkIfSkipPass e then (Return_true, d)
      else if ScenesCount e = 0 then (Return_true, d)
      else if sdfRenderFails e then (Return_true, d)
      else
        let currentFrame = FrameCount e in
        if CustomBuffer_LastFrameUsed d = currentFrame then (Return_cached, d)
        else
          let d1 = d\<lparr>CustomBuffer_LastFrameUsed := currentFrame\<rparr>;
              resolution = Clamp (GlobalSurfaceAtlasResolution e) 256 (GPU_MAX_TEXTURE_SIZE pf);
              ib = InitializeBuffers e currentFrame resolution d1
          in
            if fst ib then (Return_true, snd ib)
            else
              CullObjects pf e currentFrame
                (RemoveUnusedObjects currentFrame
                   (AddObjects e currentFrame (NewAtlasTiles resolution (snd ib)))))"

text \<open>A run of the pass: one call of \<^verbatim>\<open>Render\<close> after the other.\<close>

fun frames :: "platform \<Rightarrow> frame_env list \<Rightarrow> GlobalSurfaceAtlasData \<Rightarrow> GlobalSurfaceAtlasData" where
  "frames pf [] d = d"
| "frames pf (e # es) d = frames pf es (snd (Render pf e d))"


section \<open>Invariants\<close>

text \<open>One rectangle lies within another.\<close>

definition within :: "tile \<Rightarrow> tile \<Rightarrow> bool" where
  "within a b =
     (X b \<le> X a \<and> X a + Width a \<le> X b + Width b \<and>
      Y b \<le> Y a \<and> Y a + Height a \<le> Y b + Height b)"

text \<open>
  All rectangles of the packer of an atlas, free or not, are apart and within the side of
  the root tile, which is the resolution as the \<^verbatim>\<open>uint16\<close> constructor receives it.
\<close>

definition atlas_ok :: "GlobalSurfaceAtlasData \<Rightarrow> bool" where
  "atlas_ok d = all_tiles_ok (nat (Resolution d mod 65536)) (AtlasTiles d)"

text \<open>
  The part of the state that the loop over the faces, \<^verbatim>\<open>RasterizeActor\<close> and the removal
  of unused objects leave alone.
\<close>

definition untouched :: "GlobalSurfaceAtlasData \<Rightarrow> GlobalSurfaceAtlasData" where
  "untouched d = d\<lparr>AtlasTiles := [], Objects := [], LastFrameAtlasInsertFail := 0,
     dirtyObjectsBuffer := []\<rparr>"

text \<open>
  The read-back of the counter of culled objects: the size of the culled-objects buffer (a
  null buffer has none), whether a completed sample exists (a slot of the ring is assigned,
  the staging buffer can be mapped and the slot holds a non-zero count), the sample, the
  capacity that \<^verbatim>\<open>Render\<close> asks for, and whether a device resource fails to initialise.
\<close>

definition buffer_size :: "GlobalSurfaceAtlasData \<Rightarrow> uint32" where
  "buffer_size d = (case CulledObjectsBuffer d of None \<Rightarrow> 0 | Some n \<Rightarrow> n)"

definition sampled :: "frame_env \<Rightarrow> GlobalSurfaceAtlasData \<Rightarrow> bool" where
  "sampled e d =
     (CulledObjectsCounterIndex d \<noteq> - 1 \<and>
      (case Map e of None \<Rightarrow> False | Some data \<Rightarrow> data (nat (CulledObjectsCounterIndex d)) > 0))"

definition sample :: "frame_env \<Rightarrow> GlobalSurfaceAtlasData \<Rightarrow> uint32" where
  "sample e d = (case Map e of None \<Rightarrow> 0 | Some data \<Rightarrow> data (nat (CulledObjectsCounterIndex d)))"

definition capacity_request :: "frame_env \<Rightarrow> GlobalSurfaceAtlasData \<Rightarrow> uint32" where
  "capacity_request e d =
     min (AlignUp (if ChunksBuffer d \<and> sampled e d then sample e d * 16
                   else objectsBufferEstimate e) 4096) MAX_int32"

definition init_fails :: "frame_env \<Rightarrow> GlobalSurfaceAtlasData \<Rightarrow> bool" where
  "init_fails e d =
     ((ChunksBuffer d \<and> \<not> culledObjectsSizeBuffer d \<and> sizeBufferInitFails e) \<or>
      (buffer_size d < capacity_request e d \<and> culledObjectsBufferInit e \<noteq> InitOk))"


section \<open>The object cache and the tiles it owns\<close>

text \<open>
  The tile pointer that the cache holds for face \<open>i\<close> of the object with handle \<open>k\<close>:
  \<^verbatim>\<open>Objects.TryGet(k)->Tiles[i]\<close>, null when the object has no entry.
\<close>

definition slot :: "GlobalSurfaceAtlasData \<Rightarrow> nat \<Rightarrow> nat \<Rightarrow> nat option" where
  "slot d k i = (case TryGet k (Objects d) of None \<Rightarrow> None | Some ob \<Rightarrow> Tiles ob ! i)"

text \<open>
  The cache is a dictionary (no handle twice) of objects with the six tile pointers of
  \<^verbatim>\<open>GlobalSurfaceAtlasTile* Tiles[6]\<close>.
\<close>

definition shape :: "objects \<Rightarrow> bool" where
  "shape objs = (distinct (map fst objs) \<and> (\<forall>(k, ob) \<in> set objs. length (Tiles ob) = 6))"

text \<open>
  Every tile pointer of the cache points to a tile of the packer that is in use, and no
  tile is pointed to from two places.
\<close>

definition cache_wf :: "GlobalSurfaceAtlasData \<Rightarrow> bool" where
  "cache_wf d =
     (shape (Objects d) \<and>
      (\<forall>(k, ob) \<in> set (Objects d). \<forall>i \<in> {..<6}.
         case Tiles ob ! i of
           None \<Rightarrow> True
         | Some t \<Rightarrow> t < length (AtlasTiles d) \<and> IsUsed (AtlasTiles d ! t)) \<and>
      (\<forall>(k, ob) \<in> set (Objects d). \<forall>(k', ob') \<in> set (Objects d). \<forall>i \<in> {..<6}. \<forall>j \<in> {..<6}.
         Tiles ob ! i \<noteq> None \<and> Tiles ob ! i = Tiles ob' ! j \<longrightarrow> k = k' \<and> i = j))"

text \<open>
  What one turn of the loop over the faces may do to the packer and to the tile pointers:
  nothing, free the tile of the face, insert a tile for a face that has none, or free the
  tile of the face and insert another; the pointers of all other faces stay.
\<close>

definition slot_step ::
  "GlobalSurfaceAtlasData \<Rightarrow> GlobalSurfaceAtlasData \<Rightarrow> nat \<Rightarrow> nat \<Rightarrow> bool" where
  "slot_step d d' k i =
     (shape (Objects d') \<and>
      (\<forall>k' j. j < 6 \<longrightarrow> (k', j) \<noteq> (k, i) \<longrightarrow> slot d' k' j = slot d k' j) \<and>
      ((AtlasTiles d' = AtlasTiles d \<and> slot d' k i = slot d k i) \<or>
       (\<exists>t. slot d k i = Some t \<and> AtlasTiles d' = Free t (AtlasTiles d) \<and> slot d' k i = None) \<or>
       (\<exists>w t'. slot d k i = None \<and> fst (Insert w w (AtlasTiles d)) = Some t' \<and>
           AtlasTiles d' = snd (Insert w w (AtlasTiles d)) \<and> slot d' k i = Some t') \<or>
       (\<exists>w t t'. slot d k i = Some t \<and> fst (Insert w w (Free t (AtlasTiles d))) = Some t' \<and>
           AtlasTiles d' = snd (Insert w w (Free t (AtlasTiles d))) \<and> slot d' k i = Some t')))"

text \<open>
  The test of \<^verbatim>\<open>RasterizeActor\<close> that skips a face:
  \<^verbatim>\<open>object && object->Tiles[tileIndex]\<close> and
  \<^verbatim>\<open>Math::Abs(tileResolution - object->Tiles[tileIndex]->Width) < tileRefitResolutionStep\<close>,
  the difference taken in \<^verbatim>\<open>int\<close>.
\<close>

definition keeps :: "rasterize_args \<Rightarrow> nat \<Rightarrow> GlobalSurfaceAtlasData \<Rightarrow> bool" where
  "keeps a i d =
     (case slot d (actorObject a) i of
        None \<Rightarrow> False
      | Some t \<Rightarrow>
          \<bar>uint (tileResolution (faceResolution a i)) - int (Width (AtlasTiles d ! t))\<bar>
            < uint tileRefitResolutionStep)"

text \<open>
  The call \<^verbatim>\<open>AtlasTiles->Insert(tileResolution, tileResolution, ...)\<close> of a face that
  is not skipped, on the packer as the \<^verbatim>\<open>Free\<close> of the tile the face had leaves it.
\<close>

definition attempt :: "rasterize_args \<Rightarrow> nat \<Rightarrow> GlobalSurfaceAtlasData \<Rightarrow> nat option \<times> packer" where
  "attempt a i d =
     Insert (unat (tileResolution (faceResolution a i))) (unat (tileResolution (faceResolution a i)))
       (case slot d (actorObject a) i of
          None \<Rightarrow> AtlasTiles d
        | Some t \<Rightarrow> Free t (AtlasTiles d))"

text \<open>
  The assignment to \<^verbatim>\<open>object->Tiles[tileIndex]\<close> that one turn of the loop over the faces
  makes, if it makes one.
\<close>

definition written :: "rasterize_args \<Rightarrow> nat \<Rightarrow> GlobalSurfaceAtlasData \<Rightarrow> nat option option" where
  "written a i d =
     (if push_bit i 1 AND tilesMask a = 0 then None
      else if faceResolution a i < 4
      then (case slot d (actorObject a) i of None \<Rightarrow> None | Some t \<Rightarrow> Some None)
      else if keeps a i d then None
      else Some (fst (attempt a i d)))"

text \<open>The fields of an object other than its tiles.\<close>

definition stamps :: "GlobalSurfaceAtlasObject \<Rightarrow> uint64 \<times> uint64 \<times> nat" where
  "stamps ob = (LastFrameUsed ob, LastFrameDirty ob, Actor ob)"

text \<open>
  The test \<^verbatim>\<open>CurrentFrame - object->LastFrameDirty >= (redrawFramesCount + (actorObject->GetID().D & redrawFramesCount))\<close>
  of \<^verbatim>\<open>RasterizeActor\<close>.
\<close>

definition redraw_due :: "rasterize_args \<Rightarrow> uint64 \<Rightarrow> GlobalSurfaceAtlasObject \<Rightarrow> bool" where
  "redraw_due a currentFrame ob =
     (currentFrame - LastFrameDirty ob
        \<ge> ucast (redrawFramesCount a + (actorID_D a AND redrawFramesCount a)))"

text \<open>The tiles of the objects that the removal of unused objects takes out.\<close>

definition dead_tiles :: "uint64 \<Rightarrow> objects \<Rightarrow> nat set" where
  "dead_tiles F es = {t. \<exists>(k, ob) \<in> set es. LastFrameUsed ob \<noteq> F \<and> Some t \<in> set (Tiles ob)}"

section \<open>The phases of a frame\<close>

text \<open>
  The states of one call of \<^verbatim>\<open>Render\<close> that gets past the cached-frame test: after
  \<^verbatim>\<open>InitializeBuffers\<close> (with what it returns), after the packer is created if there is
  none, after \<^verbatim>\<open>AddObjects\<close> has run the draws of the frame, and after the removal of unused
  objects, which is the state the culling starts from. \<^verbatim>\<open>proceeds\<close> says that the call
  gets as far as the culling.
\<close>

definition resolution_of :: "platform \<Rightarrow> frame_env \<Rightarrow> int" where
  "resolution_of pf e = Clamp (GlobalSurfaceAtlasResolution e) 256 (GPU_MAX_TEXTURE_SIZE pf)"

definition initialized ::
  "platform \<Rightarrow> frame_env \<Rightarrow> GlobalSurfaceAtlasData \<Rightarrow> bool \<times> GlobalSurfaceAtlasData" where
  "initialized pf e d =
     InitializeBuffers e (FrameCount e) (resolution_of pf e)
       (d\<lparr>CustomBuffer_LastFrameUsed := FrameCount e\<rparr>)"

definition prepared :: "platform \<Rightarrow> frame_env \<Rightarrow> GlobalSurfaceAtlasData \<Rightarrow> GlobalSurfaceAtlasData" where
  "prepared pf e d = NewAtlasTiles (resolution_of pf e) (snd (initialized pf e d))"

definition drawn :: "platform \<Rightarrow> frame_env \<Rightarrow> GlobalSurfaceAtlasData \<Rightarrow> GlobalSurfaceAtlasData" where
  "drawn pf e d = AddObjects e (FrameCount e) (prepared pf e d)"

definition swept :: "platform \<Rightarrow> frame_env \<Rightarrow> GlobalSurfaceAtlasData \<Rightarrow> GlobalSurfaceAtlasData" where
  "swept pf e d = RemoveUnusedObjects (FrameCount e) (drawn pf e d)"

definition proceeds :: "platform \<Rightarrow> frame_env \<Rightarrow> GlobalSurfaceAtlasData \<Rightarrow> bool" where
  "proceeds pf e d =
     (\<not> checkIfSkipPass e \<and> ScenesCount e \<noteq> 0 \<and> \<not> sdfRenderFails e \<and>
      CustomBuffer_LastFrameUsed d \<noteq> FrameCount e \<and> \<not> fst (initialized pf e d))"

section \<open>Objects marked as used\<close>

text \<open>
  While the actors of a frame are drawn: every object that is marked as used in the current
  frame belongs to an actor already drawn and has a tile.
\<close>

definition marked_have_tiles :: "nat set \<Rightarrow> GlobalSurfaceAtlasData \<Rightarrow> bool" where
  "marked_have_tiles D d =
     (\<forall>k ob. TryGet k (Objects d) = Some ob \<longrightarrow> LastFrameUsed ob = CurrentFrame d \<longrightarrow>
        k \<in> D \<and> (\<exists>i < 6. Tiles ob ! i \<noteq> None))"

text \<open>
  Between two frames: every object of the cache was marked as used in the last frame that
  ran and has a tile.
\<close>

definition occupied :: "GlobalSurfaceAtlasData \<Rightarrow> bool" where
  "occupied d =
     (\<forall>k ob. TryGet k (Objects d) = Some ob \<longrightarrow>
        LastFrameUsed ob = CustomBuffer_LastFrameUsed d \<and> (\<exists>i < 6. Tiles ob ! i \<noteq> None))"

text \<open>
  Face \<open>i\<close> of object \<open>k\<close> holds the tile \<open>u\<close> with the rectangle \<open>T\<close>, in a well-formed
  cache; the test of \<^verbatim>\<open>RasterizeActor\<close> that keeps such a tile, for a face that the mask
  selects with a resolution of at least 4 texels; and the object being marked as used in the
  current frame.
\<close>

definition tile_held :: "nat \<Rightarrow> nat \<Rightarrow> nat \<Rightarrow> tile \<Rightarrow> GlobalSurfaceAtlasData \<Rightarrow> bool" where
  "tile_held k i u T d = (cache_wf d \<and> slot d k i = Some u \<and> AtlasTiles d ! u = T)"

definition in_band :: "nat \<Rightarrow> tile \<Rightarrow> rasterize_args \<Rightarrow> bool" where
  "in_band i T a =
     (push_bit i 1 AND tilesMask a \<noteq> 0 \<and> 4 \<le> faceResolution a i \<and>
      \<bar>uint (tileResolution (faceResolution a i)) - int (Width T)\<bar> < uint tileRefitResolutionStep)"

definition used_in :: "nat \<Rightarrow> GlobalSurfaceAtlasData \<Rightarrow> bool" where
  "used_in k d =
     (case TryGet k (Objects d) of None \<Rightarrow> False | Some ob \<Rightarrow> LastFrameUsed ob = CurrentFrame d)"
section \<open>A small atlas\<close>

text \<open>
  Concrete values on which the theorems below are tried: a platform, an atlas of 256 by 256
  texels that is still empty at frame 100, and an actor whose six faces ask for 70 texels.
\<close>

definition platform0 :: platform where
  "platform0 = \<lparr>GPU_MAX_TEXTURE_SIZE = 8192, GPU_ASYNC_LATENCY = 2\<rparr>"

definition atlas100 :: GlobalSurfaceAtlasData where
  "atlas100 = \<lparr>CustomBuffer_LastFrameUsed = 99, Resolution = 256,
          LastFrameAtlasInsertFail = 0, LastFrameAtlasDefragmentation = 1,
          ChunksBuffer = True, CulledObjectsBuffer = None, CulledObjectsCounterIndex = - 1,
          AtlasTiles = [free_tile 0 0 256 256], Objects = [], CurrentFrame = 100,
          dirtyObjectsBuffer = [], culledObjectsSizeBuffer = False,
          culledObjectsSizeFrames = [0, 0, 0, 0]\<rparr>"

definition atlas_new :: GlobalSurfaceAtlasData where
  \<comment> \<open>The custom buffer as its constructor leaves it.\<close>
  "atlas_new = \<lparr>CustomBuffer_LastFrameUsed = 0, Resolution = 0,
          LastFrameAtlasInsertFail = 0, LastFrameAtlasDefragmentation = 0,
          ChunksBuffer = False, CulledObjectsBuffer = None, CulledObjectsCounterIndex = - 1,
          AtlasTiles = [], Objects = [], CurrentFrame = 0,
          dirtyObjectsBuffer = [], culledObjectsSizeBuffer = False,
          culledObjectsSizeFrames = [0, 0, 0, 0]\<rparr>"

definition actor7 :: rasterize_args where
  "actor7 = \<lparr>actor = 1, actorStatic = False, actorID_D = 0, actorObject = 7, tilesMask = 63,
          faceResolution = (\<lambda>tileIndex. 70)\<rparr>"

definition actor7_grown :: rasterize_args where
  \<comment> \<open>The same actor seen from nearby: its first face asks for 200 texels, the others for 5.\<close>
  "actor7_grown = actor7\<lparr>faceResolution := (\<lambda>tileIndex. if tileIndex = 0 then 200 else 5)\<rparr>"

definition actor7_far :: rasterize_args where
  \<comment> \<open>The same actor from far away: every face asks for less than 4 texels.\<close>
  "actor7_far = actor7\<lparr>faceResolution := (\<lambda>tileIndex. 0)\<rparr>"

definition frame100 :: frame_env where
  \<comment> \<open>Frame 100: one scene, one actor drawn, nothing to read back yet.\<close>
  "frame100 = \<lparr>checkIfSkipPass = False, ScenesCount = 1, sdfRenderFails = False, FrameCount = 100,
          GlobalSurfaceAtlasResolution = 256, texturesAvailable = True,
          chunksBufferInitFails = False, draws = [actor7], sizeBufferInitFails = False,
          Map = None, objectsBufferEstimate = 1000, culledObjectsBufferInit = InitOk\<rparr>"

definition atlas199 :: GlobalSurfaceAtlasData where
  \<comment> \<open>After frame 199: one object with a tile of 64 texels on its first face; the last
      insertion failure was at frame 195 and the last clearing at frame 100.\<close>
  "atlas199 = \<lparr>CustomBuffer_LastFrameUsed = 199, Resolution = 256,
          LastFrameAtlasInsertFail = 195, LastFrameAtlasDefragmentation = 100,
          ChunksBuffer = True, CulledObjectsBuffer = Some 4096, CulledObjectsCounterIndex = 0,
          AtlasTiles = [\<lparr>X = 0, Y = 0, Width = 64, Height = 64, IsUsed = True\<rparr>,
                        free_tile 0 64 64 192, free_tile 64 0 192 256],
          Objects = [(7, \<lparr>LastFrameUsed = 199, LastFrameDirty = 199, Actor = 1,
                          Tiles = [Some 0, None, None, None, None, None]\<rparr>)],
          CurrentFrame = 199, dirtyObjectsBuffer = [], culledObjectsSizeBuffer = True,
          culledObjectsSizeFrames = [199, 0, 0, 0]\<rparr>"

definition frame200 :: frame_env where
  \<comment> \<open>Frame 200, the same actor drawn again.\<close>
  "frame200 = \<lparr>checkIfSkipPass = False, ScenesCount = 1, sdfRenderFails = False, FrameCount = 200,
          GlobalSurfaceAtlasResolution = 256, texturesAvailable = True,
          chunksBufferInitFails = False, draws = [actor7], sizeBufferInitFails = False,
          Map = Some (\<lambda>i. 300), objectsBufferEstimate = 1000,
          culledObjectsBufferInit = InitOk\<rparr>"


definition atlas199_calm :: GlobalSurfaceAtlasData where
  \<comment> \<open>The same atlas with no insertion failure on record, so that frame 200 clears nothing.\<close>
  "atlas199_calm = atlas199\<lparr>LastFrameAtlasInsertFail := 0\<rparr>"

definition frame200_failing :: frame_env where
  \<comment> \<open>Frame 200 on a device that cannot initialise the culled-objects buffer.\<close>
  "frame200_failing = frame200\<lparr>culledObjectsBufferInit := InitFailed 0\<rparr>"

definition frame200_unmapped :: frame_env where
  \<comment> \<open>Frame 200 with a staging buffer that cannot be mapped.\<close>
  "frame200_unmapped = frame200\<lparr>Map := None\<rparr>"

definition actor7_front :: rasterize_args where
  \<comment> \<open>The same actor drawing its first face only.\<close>
  "actor7_front = actor7\<lparr>tilesMask := 1\<rparr>"

definition actor7_front_odd :: rasterize_args where
  \<comment> \<open>The same with another identifier.\<close>
  "actor7_front_odd = actor7_front\<lparr>actorID_D := 4\<rparr>"

definition actor7_side :: rasterize_args where
  \<comment> \<open>The same object drawn with its second face only, which is too small for a tile.\<close>
  "actor7_side = actor7\<lparr>tilesMask := 2, faceResolution := (\<lambda>tileIndex. 0)\<rparr>"

definition atlas202 :: GlobalSurfaceAtlasData where
  \<comment> \<open>The atlas while the actors of frame 202 are drawn.\<close>
  "atlas202 = atlas199\<lparr>CurrentFrame := 202\<rparr>"

definition atlas203 :: GlobalSurfaceAtlasData where
  \<comment> \<open>The atlas while the actors of frame 203 are drawn.\<close>
  "atlas203 = atlas199\<lparr>CurrentFrame := 203\<rparr>"

definition frame100_twice :: frame_env where
  \<comment> \<open>Frame 100 with the same object drawn twice, the second time from far away.\<close>
  "frame100_twice = frame100\<lparr>draws := [actor7, actor7_far]\<rparr>"

definition frame200_empty :: frame_env where
  \<comment> \<open>Frame 200 with no actor drawn.\<close>
  "frame200_empty = frame200\<lparr>draws := []\<rparr>"
section \<open>Properties of the tile resolution\<close>

lemma AlignDown8_unat: "unat (AlignDown (v :: uint16) 8) = (unat v div 8) * 8"
proof -
  have "unat v div 8 * 8 \<le> unat v" by simp
  moreover have "unat v < 65536" using unsigned_less [of v, where 'a = nat] by simp
  ultimately have "unat v div 8 * 8 < 2 ^ LENGTH(16)" by simp
  then show ?thesis
    by (simp add: AlignDown_def unat_word_ariths unat_div)
qed

lemma Clamp_unat:
  "unat (Clamp (r :: uint16) GLOBAL_SURFACE_ATLAS_TILE_SIZE_MIN GLOBAL_SURFACE_ATLAS_TILE_SIZE_MAX)
     = (if unat r < 8 then 8 else if unat r < 192 then unat r else 192)"
  by (simp add: Clamp_def GLOBAL_SURFACE_ATLAS_TILE_SIZE_MIN_def
      GLOBAL_SURFACE_ATLAS_TILE_SIZE_MAX_def word_less_nat_alt)

lemma tileResolution_unat:
  "unat (tileResolution r) = (if unat r < 8 then 8 else if unat r < 192 then unat r div 8 * 8 else 192)"
  by (simp add: tileResolution_def AlignDown8_unat Clamp_unat)

section \<open>The packer keeps its rectangles apart\<close>

lemma overlap_sym: "overlap a b = overlap b a"
  by (auto simp: overlap_def)

lemma within_not_overlap: "within a b \<Longrightarrow> \<not> overlap b c \<Longrightarrow> \<not> overlap a c"
  by (auto simp: within_def overlap_def)

lemma within_inside: "within a b \<Longrightarrow> inside R b \<Longrightarrow> inside R a"
  by (auto simp: within_def inside_def)

lemma disjoint_tiles_nth:
  "disjoint_tiles ts \<longleftrightarrow> (\<forall>i < length ts. \<forall>j < length ts. i \<noteq> j \<longrightarrow> \<not> overlap (ts ! i) (ts ! j))"
proof (induction ts)
  case Nil
  then show ?case by simp
next
  case (Cons t ts)
  show ?case
  proof
    assume L: "disjoint_tiles (t # ts)"
    show "\<forall>i < length (t # ts). \<forall>j < length (t # ts). i \<noteq> j \<longrightarrow> \<not> overlap ((t # ts) ! i) ((t # ts) ! j)"
    proof (intro allI impI)
      fix i j assume "i < length (t # ts)" "j < length (t # ts)" "i \<noteq> j"
      with L Cons.IH show "\<not> overlap ((t # ts) ! i) ((t # ts) ! j)"
        by (cases i; cases j) (auto simp: overlap_sym [of _ t])
    qed
  next
    assume R: "\<forall>i < length (t # ts). \<forall>j < length (t # ts). i \<noteq> j \<longrightarrow> \<not> overlap ((t # ts) ! i) ((t # ts) ! j)"
    have "\<not> overlap t u" if "u \<in> set ts" for u
    proof -
      from that obtain k where "k < length ts" "ts ! k = u" by (auto simp: in_set_conv_nth)
      with R [rule_format, of 0 "Suc k"] show ?thesis by simp
    qed
    moreover have "disjoint_tiles ts"
      unfolding Cons.IH
    proof (intro allI impI)
      fix i j assume "i < length ts" "j < length ts" "i \<noteq> j"
      with R [rule_format, of "Suc i" "Suc j"] show "\<not> overlap (ts ! i) (ts ! j)" by simp
    qed
    ultimately show "disjoint_tiles (t # ts)" by simp
  qed
qed

lemma disjoint_tiles_filter: "disjoint_tiles ts \<Longrightarrow> disjoint_tiles (filter P ts)"
  by (induction ts) auto

lemma all_tiles_ok_valid: "all_tiles_ok R p \<Longrightarrow> packing_valid R p"
  by (simp add: all_tiles_ok_def packing_valid_def live_tiles_def disjoint_tiles_filter)

lemma find_free_Some:
  "find_free w h p = Some i \<Longrightarrow> i < length p \<and> fits w h (p ! i)"
  by (induction p arbitrary: i) (auto split: if_splits)

lemma find_free_None:
  "find_free w h p = None \<longleftrightarrow> (\<forall>t \<in> set p. \<not> fits w h t)"
  by (induction p) auto

lemma split_children_within:
  "c \<in> set (split_children w h t) \<Longrightarrow> w \<le> Width t \<Longrightarrow> h \<le> Height t \<Longrightarrow> within c t"
  by (auto simp: split_children_def Let_def within_def free_tile_def split: if_splits)

lemma split_children_not_self:
  "c \<in> set (split_children w h t) \<Longrightarrow> \<not> overlap (t\<lparr>Width := w, Height := h, IsUsed := True\<rparr>) c"
  by (auto simp: split_children_def Let_def overlap_def free_tile_def split: if_splits)

lemma split_children_disjoint:
  "w \<le> Width t \<Longrightarrow> h \<le> Height t \<Longrightarrow> disjoint_tiles (split_children w h t)"
  by (auto simp: split_children_def Let_def overlap_def free_tile_def)

lemma shrink_within:
  "w \<le> Width t \<Longrightarrow> h \<le> Height t \<Longrightarrow> within (t\<lparr>Width := w, Height := h, IsUsed := True\<rparr>) t"
  by (simp add: within_def)

lemma all_tiles_ok_Insert:
  assumes ok: "all_tiles_ok R p"
  shows "all_tiles_ok R (snd (Insert w h p))"
proof (cases "find_free w h p")
  case None
  then show ?thesis using ok by (simp add: Insert_def)
next
  case (Some i)
  define s where "s = p ! i"
  define s' where "s' = s\<lparr>Width := w, Height := h, IsUsed := True\<rparr>"
  define cs where "cs = split_children w h s"
  define q where "q = p[i := s'] @ cs"
  from Some have i: "i < length p" and f: "fits w h s"
    using find_free_Some s_def by auto
  from f have wh: "w \<le> Width s" "h \<le> Height s" by (auto simp: fits_def)
  have q: "snd (Insert w h p) = q"
    by (simp add: Insert_def Some q_def s'_def cs_def s_def)
  from ok have dj: "\<And>a b. a < length p \<Longrightarrow> b < length p \<Longrightarrow> a \<noteq> b \<Longrightarrow> \<not> overlap (p ! a) (p ! b)"
    and ins: "\<And>t. t \<in> set p \<Longrightarrow> inside R t"
    by (auto simp: all_tiles_ok_def disjoint_tiles_nth)
  have s_in: "inside R s" using ins i s_def by simp
  have s'_s: "within s' s" using wh by (simp add: s'_def shrink_within)
  have cs_s: "\<And>c. c \<in> set cs \<Longrightarrow> within c s"
    using wh by (simp add: cs_def split_children_within)
  have cs_s': "\<And>c. c \<in> set cs \<Longrightarrow> \<not> overlap s' c"
    by (simp add: cs_def s'_def split_children_not_self)
  have cs_dj: "\<And>a b. a < length cs \<Longrightarrow> b < length cs \<Longrightarrow> a \<noteq> b \<Longrightarrow> \<not> overlap (cs ! a) (cs ! b)"
    using split_children_disjoint [OF wh] by (simp add: cs_def disjoint_tiles_nth)
  have other: "\<And>a t. a < length p \<Longrightarrow> a \<noteq> i \<Longrightarrow> within t s \<Longrightarrow> \<not> overlap (p ! a) t"
  proof -
    fix a t assume a: "a < length p" "a \<noteq> i" and t: "within t s"
    from dj [OF i a(1)] a(2) have "\<not> overlap s (p ! a)" by (auto simp: s_def)
    from within_not_overlap [OF t this] show "\<not> overlap (p ! a) t" by (simp add: overlap_sym)
  qed
  have nth_q: "\<And>a. a < length q \<Longrightarrow>
      (a < length p \<and> a \<noteq> i \<and> q ! a = p ! a) \<or> (a = i \<and> q ! a = s') \<or>
      (length p \<le> a \<and> a - length p < length cs \<and> q ! a = cs ! (a - length p))"
  proof -
    fix a assume "a < length q"
    then show "(a < length p \<and> a \<noteq> i \<and> q ! a = p ! a) \<or> (a = i \<and> q ! a = s') \<or>
      (length p \<le> a \<and> a - length p < length cs \<and> q ! a = cs ! (a - length p))"
      using i by (cases "a < length p"; cases "a = i") (simp_all add: q_def nth_append)
  qed
  have "disjoint_tiles q"
    unfolding disjoint_tiles_nth
  proof (intro allI impI)
    fix a b assume a: "a < length q" and b: "b < length q" and ab: "a \<noteq> b"
    have old_w: "\<not> overlap (p ! c) t \<and> \<not> overlap t (p ! c)"
      if "c < length p" "c \<noteq> i" "within t s" for c t
      using other [OF that] by (simp add: overlap_sym)
    have w_s': "within s' s" by (rule s'_s)
    from nth_q [OF a] consider
        (A1) "a < length p" "a \<noteq> i" "q ! a = p ! a"
      | (A2) "a = i" "q ! a = s'"
      | (A3) "length p \<le> a" "a - length p < length cs" "q ! a = cs ! (a - length p)"
      by blast
    then show "\<not> overlap (q ! a) (q ! b)"
    proof cases
      case A1
      from nth_q [OF b] consider
          (B1) "b < length p" "b \<noteq> i" "q ! b = p ! b"
        | (B2) "b = i" "q ! b = s'"
        | (B3) "length p \<le> b" "b - length p < length cs" "q ! b = cs ! (b - length p)"
        by blast
      then show ?thesis
      proof cases
        case B1
        with A1 ab dj show ?thesis by simp
      next
        case B2
        with A1 old_w [OF A1(1,2) w_s'] show ?thesis by simp
      next
        case B3
        then have "within (q ! b) s" using cs_s by simp
        with A1 old_w [OF A1(1,2)] show ?thesis by simp
      qed
    next
      case A2
      from nth_q [OF b] consider
          (B1) "b < length p" "b \<noteq> i" "q ! b = p ! b"
        | (B3) "length p \<le> b" "b - length p < length cs" "q ! b = cs ! (b - length p)"
        using ab A2 by blast
      then show ?thesis
      proof cases
        case B1
        with A2 old_w [OF B1(1,2) w_s'] show ?thesis by simp
      next
        case B3
        then have "q ! b \<in> set cs" by simp
        with A2 cs_s' show ?thesis by simp
      qed
    next
      case A3
      then have a_cs: "q ! a \<in> set cs" by simp
      from nth_q [OF b] consider
          (B1) "b < length p" "b \<noteq> i" "q ! b = p ! b"
        | (B2) "b = i" "q ! b = s'"
        | (B3) "length p \<le> b" "b - length p < length cs" "q ! b = cs ! (b - length p)"
        by blast
      then show ?thesis
      proof cases
        case B1
        from a_cs have "within (q ! a) s" using cs_s by simp
        with B1 old_w [OF B1(1,2)] show ?thesis by simp
      next
        case B2
        with a_cs cs_s' show ?thesis by (simp add: overlap_sym [of _ s'])
      next
        case B3
        with A3 ab have "a - length p \<noteq> b - length p" by arith
        with A3 B3 cs_dj show ?thesis by simp
      qed
    qed
  qed
  moreover have "inside R t" if "t \<in> set q" for t
  proof -
    from that have "t \<in> set p \<or> t = s' \<or> t \<in> set cs"
      by (auto simp: q_def dest: set_update_subset_insert [THEN subsetD])
    then show ?thesis
      using ins s_in within_inside [OF s'_s] within_inside [OF cs_s] by blast
  qed
  ultimately show ?thesis by (simp add: q all_tiles_ok_def)
qed

lemma all_tiles_ok_Free:
  assumes ok: "all_tiles_ok R p"
  shows "all_tiles_ok R (Free i p)"
proof (cases "i < length p")
  case False
  then show ?thesis using ok by (simp add: Free_def)
next
  case True
  have ov: "\<And>a b. overlap (a\<lparr>IsUsed := False\<rparr>) b = overlap a b"
    "\<And>a b. overlap a (b\<lparr>IsUsed := False\<rparr>) = overlap a b"
    by (simp_all add: overlap_def)
  have "disjoint_tiles (p[i := (p ! i)\<lparr>IsUsed := False\<rparr>])"
    using ok True
    by (auto simp: all_tiles_ok_def disjoint_tiles_nth nth_list_update ov)
  moreover have "inside R t" if "t \<in> set (p[i := (p ! i)\<lparr>IsUsed := False\<rparr>])" for t
  proof -
    from that have "t = (p ! i)\<lparr>IsUsed := False\<rparr> \<or> t \<in> set p"
      by (auto dest: set_update_subset_insert [THEN subsetD])
    then show ?thesis using ok True by (auto simp: all_tiles_ok_def inside_def)
  qed
  ultimately show ?thesis using True by (simp add: Free_def all_tiles_ok_def)
qed

lemma all_tiles_ok_apply_op: "all_tiles_ok R p \<Longrightarrow> all_tiles_ok R (apply_op op p)"
  by (cases op) (simp_all add: all_tiles_ok_Insert all_tiles_ok_Free)

lemma all_tiles_ok_fold: "all_tiles_ok R p \<Longrightarrow> all_tiles_ok R (fold apply_op ops p)"
  by (induction ops arbitrary: p) (simp_all add: all_tiles_ok_apply_op)

lemma all_tiles_ok_root: "r \<le> R \<Longrightarrow> all_tiles_ok R [free_tile 0 0 r r]"
  by (simp add: all_tiles_ok_def inside_def free_tile_def)



section \<open>What the phases of a frame leave alone\<close>

lemma untouched_fields:
  "CustomBuffer_LastFrameUsed (untouched d) = CustomBuffer_LastFrameUsed d"
  "Resolution (untouched d) = Resolution d"
  "LastFrameAtlasDefragmentation (untouched d) = LastFrameAtlasDefragmentation d"
  "ChunksBuffer (untouched d) = ChunksBuffer d"
  "CulledObjectsBuffer (untouched d) = CulledObjectsBuffer d"
  "CulledObjectsCounterIndex (untouched d) = CulledObjectsCounterIndex d"
  "CurrentFrame (untouched d) = CurrentFrame d"
  "culledObjectsSizeBuffer (untouched d) = culledObjectsSizeBuffer d"
  "culledObjectsSizeFrames (untouched d) = culledObjectsSizeFrames d"
  by (simp_all add: untouched_def)

lemma face_untouched: "untouched (fst (face a i (d, x, y))) = untouched d"
  by (simp add: face_def Let_def set_tile_def untouched_def split: option.splits)

lemma faces_untouched: "untouched (fst (fold (face a) is st)) = untouched (fst st)"
proof (induction "is" arbitrary: st)
  case Nil
  then show ?case by simp
next
  case (Cons i "is")
  obtain d x y where st: "st = (d, x, y)" by (cases st) auto
  show ?case by (simp add: Cons.IH) (simp add: st face_untouched)
qed

lemma RasterizeActor_untouched: "untouched (RasterizeActor a d) = untouched d"
proof -
  obtain d' x y where f: "fold (face a) [0..<6] (d, False, False) = (d', x, y)"
    by (cases "fold (face a) [0..<6] (d, False, False)") auto
  with faces_untouched [of a "[0..<6]" "(d, False, False)"] have u: "untouched d' = untouched d"
    by simp
  have "untouched (RasterizeActor a d) = untouched d'"
    by (simp add: RasterizeActor_def f Let_def untouched_def split: option.splits)
  with u show ?thesis by simp
qed

lemma fold_RasterizeActor_untouched: "untouched (fold RasterizeActor as d) = untouched d"
  by (induction as arbitrary: d) (simp_all add: RasterizeActor_untouched)

lemma AddObjects_untouched: "untouched (AddObjects e F d) = untouched (d\<lparr>CurrentFrame := F\<rparr>)"
  by (simp add: AddObjects_def fold_RasterizeActor_untouched) (simp add: untouched_def)

lemma RemoveUnusedObjects_untouched: "untouched (RemoveUnusedObjects F d) = untouched d"
  by (cases "remove_unused F (Objects d) (AtlasTiles d)")
    (simp add: RemoveUnusedObjects_def untouched_def)

lemma NewAtlasTiles_untouched: "untouched (NewAtlasTiles r d) = untouched d"
  by (simp add: NewAtlasTiles_def untouched_def)

section \<open>The read-back of the culled-objects counter\<close>

lemma ReadCounter_result:
  "fst (ReadCounter pf e F d) = (\<not> sampled e d)"
  "fst (snd (ReadCounter pf e F d)) = (if sampled e d then sample e d * 16 else objectsBufferEstimate e)"
  by (auto simp: ReadCounter_def Let_def sampled_def sample_def split: option.splits)

lemma ReadCounter_state:
  "CulledObjectsBuffer (snd (snd (ReadCounter pf e F d))) = CulledObjectsBuffer d"
  "Objects (snd (snd (ReadCounter pf e F d))) = Objects d"
  by (simp_all add: ReadCounter_def Let_def)

lemma AlignUp_4096: "4096 dvd unat (AlignUp (c :: uint32) 4096)"
proof -
  define x where "x = c + (4096 - 1)"
  have "unat x < 2 ^ 32" using unsigned_less [of x, where 'a = nat] by simp
  then have "unat x div 4096 * 4096 < 2 ^ LENGTH(32)"
    by simp
  then have "unat ((x div 4096) * 4096) = unat x div 4096 * 4096"
    by (simp add: unat_word_ariths unat_div)
  then show ?thesis by (simp add: AlignUp_def x_def)
qed


lemma sampled_frames [simp]:
  "sampled e (d\<lparr>culledObjectsSizeFrames := fs, culledObjectsSizeBuffer := b\<rparr>) = sampled e d"
  "sample e (d\<lparr>culledObjectsSizeFrames := fs, culledObjectsSizeBuffer := b\<rparr>) = sample e d"
  by (simp_all add: sampled_def sample_def split: option.splits)

lemma CullObjects_empty: "Objects d = [] \<Longrightarrow> CullObjects pf e F d = (Return_notReady False, d)"
  by (simp add: CullObjects_def)

lemma CullObjects_fail1:
  "Objects d \<noteq> [] \<Longrightarrow> ChunksBuffer d \<Longrightarrow> \<not> culledObjectsSizeBuffer d \<Longrightarrow> sizeBufferInitFails e \<Longrightarrow>
   fst (CullObjects pf e F d) = Return_true \<and>
   CulledObjectsBuffer (snd (CullObjects pf e F d)) = CulledObjectsBuffer d"
  by (simp add: CullObjects_def Let_def)

lemma CullObjects_main:
  assumes "Objects d \<noteq> []"
    and "\<not> (ChunksBuffer d \<and> \<not> culledObjectsSizeBuffer d \<and> sizeBufferInitFails e)"
  shows "fst (CullObjects pf e F d) =
           (if buffer_size d < capacity_request e d \<and> culledObjectsBufferInit e \<noteq> InitOk
            then Return_true
            else Return_notReady (ChunksBuffer d \<and> \<not> sampled e d))"
    and "culledObjectsBufferInit e = InitOk \<Longrightarrow>
         buffer_size (snd (CullObjects pf e F d)) =
           (if buffer_size d < capacity_request e d then capacity_request e d else buffer_size d)"
    and "\<not> buffer_size d < capacity_request e d \<Longrightarrow>
         buffer_size (snd (CullObjects pf e F d)) = buffer_size d"
proof -
  define ds where "ds = (if ChunksBuffer d \<and> \<not> culledObjectsSizeBuffer d
                  then d\<lparr>culledObjectsSizeFrames :=
                           replicate (length (culledObjectsSizeFrames d)) 0,
                         culledObjectsSizeBuffer := True\<rparr>
                  else d)"
  have ds: "ChunksBuffer ds = ChunksBuffer d" "CulledObjectsBuffer ds = CulledObjectsBuffer d"
    "sampled e ds = sampled e d" "sample e ds = sample e d"
    by (simp_all add: ds_def)
  define rc where "rc = (if ChunksBuffer ds then ReadCounter pf e F ds
                      else (False, objectsBufferEstimate e, ds))"
  have rc1: "fst rc = (ChunksBuffer d \<and> \<not> sampled e d)"
    by (simp add: rc_def ReadCounter_result ds)
  have rc2: "min (AlignUp (fst (snd rc)) 4096) MAX_int32 = capacity_request e d"
    by (simp add: rc_def ReadCounter_result ds capacity_request_def)
  have rc3: "(case CulledObjectsBuffer (snd (snd rc)) of None \<Rightarrow> 0 | Some n \<Rightarrow> n) = buffer_size d"
    by (simp add: rc_def ReadCounter_state ds buffer_size_def)
  have C: "CullObjects pf e F d =
      (if buffer_size d < capacity_request e d then
         (case culledObjectsBufferInit e of
            InitOk \<Rightarrow> (Return_notReady (fst rc),
                       (snd (snd rc))\<lparr>CulledObjectsBuffer := Some (capacity_request e d)\<rparr>)
          | InitFailed n \<Rightarrow> (Return_true, (snd (snd rc))\<lparr>CulledObjectsBuffer := Some n\<rparr>))
       else (Return_notReady (fst rc), (snd (snd rc))\<lparr>CulledObjectsBuffer := Some (buffer_size d)\<rparr>))"
  proof -
    have a1: "(Objects d = []) = False" using assms(1) by simp
    have a2: "((ChunksBuffer d \<and> \<not> culledObjectsSizeBuffer d) \<and> sizeBufferInitFails e) = False"
      using assms(2) by blast
    show ?thesis
      unfolding CullObjects_def Let_def ds_def [symmetric] rc_def [symmetric] rc2 rc3 a1 a2
      by simp
  qed
  show "fst (CullObjects pf e F d) =
           (if buffer_size d < capacity_request e d \<and> culledObjectsBufferInit e \<noteq> InitOk
            then Return_true
            else Return_notReady (ChunksBuffer d \<and> \<not> sampled e d))"
    unfolding C by (simp add: rc1 split: init_result.splits)
  show "culledObjectsBufferInit e = InitOk \<Longrightarrow>
         buffer_size (snd (CullObjects pf e F d)) =
           (if buffer_size d < capacity_request e d then capacity_request e d else buffer_size d)"
    unfolding C by (simp add: buffer_size_def)
  show "\<not> buffer_size d < capacity_request e d \<Longrightarrow>
         buffer_size (snd (CullObjects pf e F d)) = buffer_size d"
    unfolding C by (simp add: buffer_size_def)
qed


lemma InitializeBuffers_buffer:
  "CulledObjectsBuffer (snd (InitializeBuffers e F r d)) = CulledObjectsBuffer d"
  by (simp add: InitializeBuffers_def Let_def Clear_def ClearObjects_def)

lemma before_cull_buffer:
  "CulledObjectsBuffer (RemoveUnusedObjects F (AddObjects e F (NewAtlasTiles r d)))
     = CulledObjectsBuffer d"
proof -
  have "untouched (RemoveUnusedObjects F (AddObjects e F (NewAtlasTiles r d)))
      = untouched (d\<lparr>CurrentFrame := F\<rparr>)"
    by (simp add: RemoveUnusedObjects_untouched AddObjects_untouched)
      (simp add: NewAtlasTiles_def untouched_def)
  then have "CulledObjectsBuffer (untouched (RemoveUnusedObjects F (AddObjects e F (NewAtlasTiles r d))))
      = CulledObjectsBuffer (untouched (d\<lparr>CurrentFrame := F\<rparr>))"
    by (rule arg_cong)
  then show ?thesis by (simp only: untouched_fields) simp
qed

lemma CullObjects_buffer:
  assumes "culledObjectsBufferInit e = InitOk"
  shows "buffer_size (snd (CullObjects pf e F d)) = buffer_size d \<or>
     (buffer_size d < capacity_request e d \<and>
      buffer_size (snd (CullObjects pf e F d)) = capacity_request e d)"
proof (cases "Objects d = []")
  case True
  then show ?thesis by (simp add: CullObjects_empty)
next
  case False
  show ?thesis
  proof (cases "ChunksBuffer d \<and> \<not> culledObjectsSizeBuffer d \<and> sizeBufferInitFails e")
    case True
    with False CullObjects_fail1 [of d e pf F] show ?thesis by (simp add: buffer_size_def)
  next
    case nf: False
    from CullObjects_main(2) [OF False nf assms] show ?thesis by simp
  qed
qed

lemma Render_buffer:
  assumes "culledObjectsBufferInit e = InitOk"
  shows "\<exists>dc. buffer_size dc = buffer_size d \<and>
     (buffer_size (snd (Render pf e d)) = buffer_size d \<or>
      (buffer_size d < capacity_request e dc \<and>
       buffer_size (snd (Render pf e d)) = capacity_request e dc))"
proof -
  define F where "F = FrameCount e"
  define r where "r = Clamp (GlobalSurfaceAtlasResolution e) 256 (GPU_MAX_TEXTURE_SIZE pf)"
  define ib where "ib = InitializeBuffers e F r (d\<lparr>CustomBuffer_LastFrameUsed := F\<rparr>)"
  define dc where "dc = RemoveUnusedObjects F (AddObjects e F (NewAtlasTiles r (snd ib)))"
  have b1: "buffer_size (snd ib) = buffer_size d"
    by (simp add: ib_def buffer_size_def InitializeBuffers_buffer)
  have b2: "buffer_size dc = buffer_size d"
    using b1 by (simp add: dc_def buffer_size_def before_cull_buffer)
  have "snd (Render pf e d) = d \<or> snd (Render pf e d) = snd ib \<or>
      snd (Render pf e d) = snd (CullObjects pf e F dc)"
    unfolding Render_def Let_def F_def [symmetric] r_def [symmetric] ib_def [symmetric]
      dc_def [symmetric]
    by simp
  then consider (head) "snd (Render pf e d) = d" | (init) "snd (Render pf e d) = snd ib"
    | (cull) "snd (Render pf e d) = snd (CullObjects pf e F dc)"
    by blast
  then show ?thesis
  proof cases
    case head
    then show ?thesis by auto
  next
    case init
    with b1 show ?thesis by auto
  next
    case cull
    with CullObjects_buffer [OF assms, of pf F dc] b2 show ?thesis by auto
  qed
qed

lemma Render_buffer_mono:
  "culledObjectsBufferInit e = InitOk \<Longrightarrow> buffer_size d \<le> buffer_size (snd (Render pf e d))"
  using Render_buffer [of e d pf] by auto

lemma frames_buffer_mono:
  "\<forall>e \<in> set es. culledObjectsBufferInit e = InitOk \<Longrightarrow>
   buffer_size d \<le> buffer_size (frames pf es d)"
proof (induction es arbitrary: d)
  case Nil
  then show ?case by simp
next
  case (Cons e es)
  have "buffer_size d \<le> buffer_size (snd (Render pf e d))"
    using Cons.prems by (simp add: Render_buffer_mono)
  also have "\<dots> \<le> buffer_size (frames pf es (snd (Render pf e d)))"
    using Cons.prems by (intro Cons.IH) simp
  finally show ?case by simp
qed

lemma capacity_request_bound:
  "capacity_request e d \<le> MAX_int32 \<and>
   (capacity_request e d = MAX_int32 \<or> 4096 dvd unat (capacity_request e d))"
  unfolding capacity_request_def min_def using AlignUp_4096 by auto


lemma CullObjects_notReady:
  assumes "fst (CullObjects pf e F d) = Return_notReady True"
  shows "\<not> sampled e d"
proof (cases "Objects d = []")
  case True
  with assms show ?thesis by (simp add: CullObjects_empty)
next
  case False
  show ?thesis
  proof (cases "ChunksBuffer d \<and> \<not> culledObjectsSizeBuffer d \<and> sizeBufferInitFails e")
    case True
    with False CullObjects_fail1 [of d e pf F] assms show ?thesis by simp
  next
    case nf: False
    from CullObjects_main(1) [OF False nf, of pf F] assms show ?thesis
      by (simp split: if_splits)
  qed
qed

lemma InitializeBuffers_index:
  "CulledObjectsCounterIndex (snd (InitializeBuffers e F r d)) = CulledObjectsCounterIndex d \<or>
   CulledObjectsCounterIndex (snd (InitializeBuffers e F r d)) = - 1"
  by (simp add: InitializeBuffers_def Let_def Clear_def ClearObjects_def)

lemma before_cull_index:
  "CulledObjectsCounterIndex (RemoveUnusedObjects F (AddObjects e F (NewAtlasTiles r d)))
     = CulledObjectsCounterIndex d"
proof -
  have "untouched (RemoveUnusedObjects F (AddObjects e F (NewAtlasTiles r d)))
      = untouched (d\<lparr>CurrentFrame := F\<rparr>)"
    by (simp add: RemoveUnusedObjects_untouched AddObjects_untouched)
      (simp add: NewAtlasTiles_def untouched_def)
  then have "CulledObjectsCounterIndex
        (untouched (RemoveUnusedObjects F (AddObjects e F (NewAtlasTiles r d))))
      = CulledObjectsCounterIndex (untouched (d\<lparr>CurrentFrame := F\<rparr>))"
    by (rule arg_cong)
  then show ?thesis by (simp only: untouched_fields) simp
qed

lemma Render_notReady:
  assumes "fst (Render pf e d) = Return_notReady True"
  shows "\<exists>dc. \<not> sampled e dc \<and>
     (CulledObjectsCounterIndex dc = CulledObjectsCounterIndex d \<or>
      CulledObjectsCounterIndex dc = - 1)"
proof -
  define F where "F = FrameCount e"
  define r where "r = Clamp (GlobalSurfaceAtlasResolution e) 256 (GPU_MAX_TEXTURE_SIZE pf)"
  define ib where "ib = InitializeBuffers e F r (d\<lparr>CustomBuffer_LastFrameUsed := F\<rparr>)"
  define dc where "dc = RemoveUnusedObjects F (AddObjects e F (NewAtlasTiles r (snd ib)))"
  have "fst (Render pf e d) = Return_true \<or> fst (Render pf e d) = Return_cached \<or>
      fst (Render pf e d) = fst (CullObjects pf e F dc)"
    unfolding Render_def Let_def F_def [symmetric] r_def [symmetric] ib_def [symmetric]
      dc_def [symmetric]
    by simp
  with assms have "fst (CullObjects pf e F dc) = Return_notReady True" by auto
  then have "\<not> sampled e dc" by (rule CullObjects_notReady)
  moreover have "CulledObjectsCounterIndex dc = CulledObjectsCounterIndex (snd ib)"
    by (simp add: dc_def before_cull_index)
  moreover have "CulledObjectsCounterIndex (snd ib) = CulledObjectsCounterIndex d \<or>
      CulledObjectsCounterIndex (snd ib) = - 1"
    using InitializeBuffers_index [of e F r "d\<lparr>CustomBuffer_LastFrameUsed := F\<rparr>"]
    by (simp add: ib_def)
  ultimately show ?thesis by auto
qed


section \<open>The tile pointers of the cache\<close>


lemma shape_TryGet:
  "shape objs \<Longrightarrow> (TryGet k objs = Some ob) = ((k, ob) \<in> set objs)"
  by (simp add: shape_def TryGet_def)

lemma shape_length: "shape objs \<Longrightarrow> TryGet k objs = Some ob \<Longrightarrow> length (Tiles ob) = 6"
  by (auto simp: shape_TryGet) (auto simp: shape_def)

lemma cache_wf_iff:
  "cache_wf d \<longleftrightarrow>
     shape (Objects d) \<and>
     (\<forall>k i t. i < 6 \<longrightarrow> slot d k i = Some t \<longrightarrow>
        t < length (AtlasTiles d) \<and> IsUsed (AtlasTiles d ! t)) \<and>
     (\<forall>k k' i j t. i < 6 \<longrightarrow> j < 6 \<longrightarrow> slot d k i = Some t \<longrightarrow> slot d k' j = Some t \<longrightarrow>
        k = k' \<and> i = j)"
  (is "?L \<longleftrightarrow> ?S \<and> ?V \<and> ?E")
proof (cases "shape (Objects d)")
  case False
  then show ?thesis by (simp add: cache_wf_def)
next
  case sh: True
  have sl: "slot d k i = Some t \<longleftrightarrow> (\<exists>ob. (k, ob) \<in> set (Objects d) \<and> Tiles ob ! i = Some t)"
    for k i t
    by (simp add: slot_def shape_TryGet [OF sh, symmetric] split: option.splits)
  have V: "?V \<longleftrightarrow> (\<forall>(k, ob) \<in> set (Objects d). \<forall>i \<in> {..<6}.
         case Tiles ob ! i of
           None \<Rightarrow> True
         | Some t \<Rightarrow> t < length (AtlasTiles d) \<and> IsUsed (AtlasTiles d ! t))"
    unfolding sl by (auto split: option.splits) 
  define E' where "E' \<longleftrightarrow> (\<forall>k ob k' ob' i j. (k, ob) \<in> set (Objects d) \<longrightarrow>
      (k', ob') \<in> set (Objects d) \<longrightarrow> i < 6 \<longrightarrow> j < 6 \<longrightarrow>
      Tiles ob ! i \<noteq> None \<longrightarrow> Tiles ob ! i = Tiles ob' ! j \<longrightarrow> k = k' \<and> i = j)"
  have E1: "?E \<longleftrightarrow> E'"
    unfolding sl E'_def
  proof
    assume a: "\<forall>k k' i j t. i < 6 \<longrightarrow> j < 6 \<longrightarrow>
        (\<exists>ob. (k, ob) \<in> set (Objects d) \<and> Tiles ob ! i = Some t) \<longrightarrow>
        (\<exists>ob. (k', ob) \<in> set (Objects d) \<and> Tiles ob ! j = Some t) \<longrightarrow> k = k' \<and> i = j"
    show "\<forall>k ob k' ob' i j. (k, ob) \<in> set (Objects d) \<longrightarrow>
      (k', ob') \<in> set (Objects d) \<longrightarrow> i < 6 \<longrightarrow> j < 6 \<longrightarrow>
      Tiles ob ! i \<noteq> None \<longrightarrow> Tiles ob ! i = Tiles ob' ! j \<longrightarrow> k = k' \<and> i = j"
    proof (intro allI impI)
      fix k ob k' ob' i j
      assume b: "(k, ob) \<in> set (Objects d)" "(k', ob') \<in> set (Objects d)" "i < 6" "j < 6"
        "Tiles ob ! i \<noteq> None" "Tiles ob ! i = Tiles ob' ! j"
      then obtain t where "Tiles ob ! i = Some t" by auto
      with a [rule_format, of i j k t k'] b show "k = k' \<and> i = j" by auto
    qed
  next
    assume a: "\<forall>k ob k' ob' i j. (k, ob) \<in> set (Objects d) \<longrightarrow>
      (k', ob') \<in> set (Objects d) \<longrightarrow> i < 6 \<longrightarrow> j < 6 \<longrightarrow>
      Tiles ob ! i \<noteq> None \<longrightarrow> Tiles ob ! i = Tiles ob' ! j \<longrightarrow> k = k' \<and> i = j"
    show "\<forall>k k' i j t. i < 6 \<longrightarrow> j < 6 \<longrightarrow>
        (\<exists>ob. (k, ob) \<in> set (Objects d) \<and> Tiles ob ! i = Some t) \<longrightarrow>
        (\<exists>ob. (k', ob) \<in> set (Objects d) \<and> Tiles ob ! j = Some t) \<longrightarrow> k = k' \<and> i = j"
    proof (intro allI impI, elim exE conjE)
      fix k k' i j t ob ob'
      assume b: "i < 6" "j < 6" "(k, ob) \<in> set (Objects d)" "Tiles ob ! i = Some t"
        "(k', ob') \<in> set (Objects d)" "Tiles ob' ! j = Some t"
      with a [rule_format, of k ob k' ob' i j] show "k = k' \<and> i = j" by simp
    qed
  qed
  have E2: "E' \<longleftrightarrow> (\<forall>(k, ob) \<in> set (Objects d). \<forall>(k', ob') \<in> set (Objects d). \<forall>i \<in> {..<6}. \<forall>j \<in> {..<6}.
         Tiles ob ! i \<noteq> None \<and> Tiles ob ! i = Tiles ob' ! j \<longrightarrow> k = k' \<and> i = j)"
    unfolding E'_def by (simp add: Ball_def split_paired_all) blast
  have E: "?E \<longleftrightarrow> (\<forall>(k, ob) \<in> set (Objects d). \<forall>(k', ob') \<in> set (Objects d). \<forall>i \<in> {..<6}. \<forall>j \<in> {..<6}.
         Tiles ob ! i \<noteq> None \<and> Tiles ob ! i = Tiles ob' ! j \<longrightarrow> k = k' \<and> i = j)"
    using E1 E2 by simp
  show ?thesis using sh V E by (simp add: cache_wf_def)
qed


lemma Free_length [simp]: "length (Free t p) = length p"
  by (simp add: Free_def)

lemma Free_nth:
  "u < length p \<Longrightarrow> Free t p ! u = (if u = t then (p ! u)\<lparr>IsUsed := False\<rparr> else p ! u)"
  by (simp add: Free_def)

lemma Insert_None: "fst (Insert w h p) = None \<Longrightarrow> snd (Insert w h p) = p"
  by (simp add: Insert_def split: option.splits)

lemma Insert_Some:
  assumes "fst (Insert w h p) = Some t"
  shows "t < length p" and "fits w h (p ! t)" and "length p \<le> length (snd (Insert w h p))"
    and "snd (Insert w h p) ! t = (p ! t)\<lparr>Width := w, Height := h, IsUsed := True\<rparr>"
    and "\<And>u. u < length p \<Longrightarrow> u \<noteq> t \<Longrightarrow> snd (Insert w h p) ! u = p ! u"
proof -
  from assms have f: "find_free w h p = Some t"
    by (simp add: Insert_def split: option.splits)
  from find_free_Some [OF f] show t: "t < length p" and "fits w h (p ! t)" by simp_all
  have s: "snd (Insert w h p) =
      p[t := (p ! t)\<lparr>Width := w, Height := h, IsUsed := True\<rparr>] @ split_children w h (p ! t)"
    by (simp add: Insert_def f)
  show "length p \<le> length (snd (Insert w h p))" by (simp add: s)
  show "snd (Insert w h p) ! t = (p ! t)\<lparr>Width := w, Height := h, IsUsed := True\<rparr>"
    using t by (simp add: s nth_append)
  show "\<And>u. u < length p \<Longrightarrow> u \<noteq> t \<Longrightarrow> snd (Insert w h p) ! u = p ! u"
    by (simp add: s nth_append)
qed

lemma Insert_succeeds: "t \<in> set p \<Longrightarrow> fits w h t \<Longrightarrow> fst (Insert w h p) \<noteq> None"
proof -
  assume "t \<in> set p" "fits w h t"
  then have "find_free w h p \<noteq> None" by (auto simp: find_free_None)
  then show ?thesis by (auto simp: Insert_def)
qed

lemma map_fst_modify [simp]: "map fst (modify k f objs) = map fst objs"
  by (induction objs) (auto simp: modify_def)

lemma TryGet_modify:
  "TryGet k' (modify k f objs) = (if k' = k then map_option f (TryGet k objs) else TryGet k' objs)"
  by (induction objs) (auto simp: modify_def TryGet_def)

lemma shape_modify:
  assumes "shape objs" and "\<And>ob. length (Tiles (f ob)) = length (Tiles ob)"
  shows "shape (modify k f objs)"
proof -
  have "length (Tiles ob') = 6" if "(k', ob') \<in> set (modify k f objs)" for k' ob'
  proof -
    from that obtain ob where "(k', ob) \<in> set objs" "ob' = f ob \<or> ob' = ob"
      by (auto simp: modify_def split: if_splits)
    with assms show ?thesis by (auto simp: shape_def)
  qed
  with assms(1) show ?thesis by (auto simp: shape_def)
qed

lemma TryGet_At:
  "TryGet k' (At k objs) =
     (if k' = k \<and> TryGet k objs = None then Some GlobalSurfaceAtlasObject_new else TryGet k' objs)"
  by (auto simp: At_def TryGet_def map_add_def split: option.splits)

lemma shape_At: "shape objs \<Longrightarrow> shape (At k objs)"
  unfolding shape_def At_def
  by (auto simp: GlobalSurfaceAtlasObject_new_def map_of_eq_None_iff)

lemma slot_Objects_cong: "Objects d' = Objects d \<Longrightarrow> slot d' k i = slot d k i"
  by (simp add: slot_def)

lemma slot_set_tile:
  assumes "shape (Objects d)" and "i < 6" and "j < 6"
  shows "slot (set_tile k i v d) k' j =
     (if k' = k \<and> j = i \<and> TryGet k (Objects d) \<noteq> None then v else slot d k' j)"
proof (cases "TryGet k (Objects d)")
  case None
  then show ?thesis by (auto simp: slot_def set_tile_def TryGet_modify)
next
  case (Some ob)
  with assms have "length (Tiles ob) = 6" by (simp add: shape_length)
  with Some assms show ?thesis by (auto simp: slot_def set_tile_def TryGet_modify)
qed

lemma shape_set_tile: "shape (Objects d) \<Longrightarrow> shape (Objects (set_tile k i v d))"
  by (simp add: set_tile_def shape_modify)

lemma slot_At:
  assumes "j < 6"
  shows "slot (d\<lparr>Objects := At k (Objects d)\<rparr>) k' j = slot d k' j"
  using assms by (auto simp: slot_def TryGet_At GlobalSurfaceAtlasObject_new_def)


lemma face_masked: "push_bit i 1 AND tilesMask a = 0 \<Longrightarrow> face a i st = st"
  by (cases st) (simp add: face_def)

lemma face_small:
  assumes "push_bit i 1 AND tilesMask a \<noteq> 0" and "faceResolution a i < 4"
  shows "face a i (d, x, y) =
     (case slot d (actorObject a) i of
        None \<Rightarrow> (d, x, y)
      | Some t \<Rightarrow>
          (set_tile (actorObject a) i None (d\<lparr>AtlasTiles := Free t (AtlasTiles d)\<rparr>), x, y))"
proof (cases "TryGet (actorObject a) (Objects d)")
  case None
  with assms show ?thesis by (simp add: face_def slot_def)
next
  case (Some ob)
  with assms show ?thesis by (cases "Tiles ob ! i") (simp_all add: face_def slot_def)
qed

lemma face_keep:
  assumes "push_bit i 1 AND tilesMask a \<noteq> 0" and "\<not> faceResolution a i < 4" and "keeps a i d"
  shows "face a i (d, x, y) = (d, True, y)"
proof (cases "TryGet (actorObject a) (Objects d)")
  case None
  with assms show ?thesis by (simp add: keeps_def slot_def)
next
  case (Some ob)
  with assms show ?thesis
    by (cases "Tiles ob ! i") (simp_all add: face_def slot_def keeps_def)
qed

lemma face_pack:
  assumes "push_bit i 1 AND tilesMask a \<noteq> 0" and "\<not> faceResolution a i < 4" and "\<not> keeps a i d"
  shows "face a i (d, x, y) =
     (let p1 = (case slot d (actorObject a) i of
                  None \<Rightarrow> AtlasTiles d
                | Some t \<Rightarrow> Free t (AtlasTiles d));
          ins = Insert (unat (tileResolution (faceResolution a i)))
                  (unat (tileResolution (faceResolution a i))) p1
      in case fst ins of
           Some t' \<Rightarrow>
             (set_tile (actorObject a) i (Some t')
                (d\<lparr>AtlasTiles := snd ins, Objects := At (actorObject a) (Objects d)\<rparr>), True, True)
         | None \<Rightarrow>
             ((if TryGet (actorObject a) (Objects d) \<noteq> None
               then set_tile (actorObject a) i None (d\<lparr>AtlasTiles := snd ins\<rparr>)
               else d\<lparr>AtlasTiles := snd ins\<rparr>)
                \<lparr>LastFrameAtlasInsertFail := CurrentFrame d\<rparr>, x, y))"
proof (cases "TryGet (actorObject a) (Objects d)")
  case None
  with assms show ?thesis
    by (cases "fst (Insert (unat (tileResolution (faceResolution a i)))
                  (unat (tileResolution (faceResolution a i))) (AtlasTiles d))")
      (simp_all add: face_def slot_def set_tile_def Let_def)
next
  case (Some ob)
  show ?thesis
  proof (cases "Tiles ob ! i")
    case None
    with Some assms show ?thesis
      by (cases "fst (Insert (unat (tileResolution (faceResolution a i)))
                  (unat (tileResolution (faceResolution a i))) (AtlasTiles d))")
        (simp_all add: face_def slot_def set_tile_def Let_def)
  next
    case (Some t)
    with \<open>TryGet (actorObject a) (Objects d) = Some ob\<close> assms show ?thesis
      by (cases "fst (Insert (unat (tileResolution (faceResolution a i)))
                  (unat (tileResolution (faceResolution a i))) (Free t (AtlasTiles d)))")
        (simp_all add: face_def slot_def keeps_def set_tile_def Let_def)
  qed
qed


lemma slot_step_refl: "shape (Objects d) \<Longrightarrow> slot_step d d k i"
  by (simp add: slot_step_def)

lemma slot_Some_TryGet: "slot d k i = Some t \<Longrightarrow> TryGet k (Objects d) \<noteq> None"
  by (auto simp: slot_def split: option.splits)

lemma slot_step_free:
  assumes sh: "shape (Objects d)" and i: "i < 6" and s: "slot d k i = Some t"
    and o: "Objects dn = Objects d" and p: "AtlasTiles dn = Free t (AtlasTiles d)"
  shows "slot_step d (set_tile k i None dn) k i"
proof -
  have sh1: "shape (Objects dn)" using sh o by simp
  have e: "TryGet k (Objects dn) \<noteq> None" using s o slot_Some_TryGet [of d k i t] by simp
  have a: "slot (set_tile k i None dn) k' j = slot d k' j" if "j < 6" "(k', j) \<noteq> (k, i)" for k' j
    using that slot_set_tile [OF sh1 i that(1), of k None k'] slot_Objects_cong [OF o] by auto
  have b: "slot (set_tile k i None dn) k i = None"
    using slot_set_tile [OF sh1 i i, of k None k] e by simp
  have c: "AtlasTiles (set_tile k i None dn) = Free t (AtlasTiles d)"
    by (simp add: set_tile_def p)
  show ?thesis
    unfolding slot_step_def
  proof (intro conjI allI impI)
    show "shape (Objects (set_tile k i None dn))" by (rule shape_set_tile [OF sh1])
    show "slot (set_tile k i None dn) k' j = slot d k' j" if "j < 6" "(k', j) \<noteq> (k, i)" for k' j
      using that by (rule a)
    have "\<exists>t. slot d k i = Some t \<and> AtlasTiles (set_tile k i None dn) = Free t (AtlasTiles d) \<and>
        slot (set_tile k i None dn) k i = None"
      using s b c by (intro exI [of _ t]) simp
    then show "AtlasTiles (set_tile k i None dn) = AtlasTiles d \<and>
        slot (set_tile k i None dn) k i = slot d k i \<or>
      (\<exists>t. slot d k i = Some t \<and> AtlasTiles (set_tile k i None dn) = Free t (AtlasTiles d) \<and>
        slot (set_tile k i None dn) k i = None) \<or>
      (\<exists>w t'. slot d k i = None \<and> fst (Insert w w (AtlasTiles d)) = Some t' \<and>
        AtlasTiles (set_tile k i None dn) = snd (Insert w w (AtlasTiles d)) \<and>
        slot (set_tile k i None dn) k i = Some t') \<or>
      (\<exists>w t t'. slot d k i = Some t \<and> fst (Insert w w (Free t (AtlasTiles d))) = Some t' \<and>
        AtlasTiles (set_tile k i None dn) = snd (Insert w w (Free t (AtlasTiles d))) \<and>
        slot (set_tile k i None dn) k i = Some t')"
      by (intro disjI2 disjI1)
  qed
qed

lemma slot_step_put:
  assumes sh: "shape (Objects d)" and i: "i < 6"
    and o: "Objects dn = At k (Objects d)" and p: "AtlasTiles dn = p'"
  shows "shape (Objects (set_tile k i (Some t') dn))"
    and "\<And>k' j. j < 6 \<Longrightarrow> (k', j) \<noteq> (k, i) \<Longrightarrow> slot (set_tile k i (Some t') dn) k' j = slot d k' j"
    and "slot (set_tile k i (Some t') dn) k i = Some t'"
    and "AtlasTiles (set_tile k i (Some t') dn) = p'"
proof -
  have sh1: "shape (Objects dn)" using sh o by (simp add: shape_At)
  have e: "TryGet k (Objects dn) \<noteq> None" by (simp add: o TryGet_At)
  have at: "slot dn k' j = slot d k' j" if "j < 6" for k' j
    using slot_At [OF that, where d = d and k = k and k' = k']
      slot_Objects_cong [of dn "d\<lparr>Objects := At k (Objects d)\<rparr>" k' j] o
    by simp
  show "shape (Objects (set_tile k i (Some t') dn))" by (rule shape_set_tile [OF sh1])
  show "slot (set_tile k i (Some t') dn) k' j = slot d k' j" if "j < 6" "(k', j) \<noteq> (k, i)" for k' j
    using that slot_set_tile [OF sh1 i that(1), of k "Some t'" k'] at [OF that(1)] by auto
  show "slot (set_tile k i (Some t') dn) k i = Some t'"
    using slot_set_tile [OF sh1 i i, of k "Some t'" k] e by simp
  show "AtlasTiles (set_tile k i (Some t') dn) = p'" by (simp add: set_tile_def p)
qed

lemma slot_step_irrelevant:
  assumes "slot_step d dn k i" and "Objects d' = Objects dn" and "AtlasTiles d' = AtlasTiles dn"
  shows "slot_step d d' k i"
proof -
  have "slot d' k' j = slot dn k' j" for k' j using assms(2) by (rule slot_Objects_cong)
  then have "slot d' = slot dn" by (intro ext)
  with assms show ?thesis unfolding slot_step_def by simp
qed

lemma face_effect:
  assumes sh: "shape (Objects d)" and i: "i < 6"
  shows "slot_step d (fst (face a i (d, x, y))) (actorObject a) i"
proof (cases "push_bit i 1 AND tilesMask a = 0")
  case True
  then show ?thesis by (simp add: face_masked slot_step_refl [OF sh])
next
  case mask: False
  define k where "k = actorObject a"
  show ?thesis
  proof (cases "faceResolution a i < 4")
    case small: True
    show ?thesis
    proof (cases "slot d k i")
      case None
      then show ?thesis
        using face_small [OF mask small, of d x y] by (simp add: k_def slot_step_refl [OF sh])
    next
      case (Some t)
      have "slot_step d (set_tile k i None (d\<lparr>AtlasTiles := Free t (AtlasTiles d)\<rparr>)) k i"
        by (rule slot_step_free [OF sh i Some]) simp_all
      then show ?thesis
        using face_small [OF mask small, of d x y] Some by (simp add: k_def)
    qed
  next
    case big: False
    show ?thesis
    proof (cases "keeps a i d")
      case True
      then show ?thesis
        using face_keep [OF mask big True, of x y] by (simp add: slot_step_refl [OF sh])
    next
      case nk: False
      define w where "w = unat (tileResolution (faceResolution a i))"
      define p1 where "p1 = (case slot d k i of None \<Rightarrow> AtlasTiles d | Some t \<Rightarrow> Free t (AtlasTiles d))"
      define ins where "ins = Insert w w p1"
      note fp = face_pack [OF mask big nk, of x y, unfolded Let_def, folded k_def,
          folded w_def, folded p1_def, folded ins_def]
      show ?thesis
      proof (cases "fst ins")
        case (Some t')
        define dn where "dn = d\<lparr>AtlasTiles := snd ins, Objects := At k (Objects d)\<rparr>"
        have f: "fst (face a i (d, x, y)) = set_tile k i (Some t') dn"
          using fp Some by (simp add: dn_def)
        have o: "Objects dn = At k (Objects d)" "AtlasTiles dn = snd ins" by (simp_all add: dn_def)
        note put = slot_step_put [OF sh i o, where t' = t']
        have third: "(\<exists>w u. slot d k i = None \<and> fst (Insert w w (AtlasTiles d)) = Some u \<and>
             AtlasTiles (set_tile k i (Some t') dn) = snd (Insert w w (AtlasTiles d)) \<and>
             slot (set_tile k i (Some t') dn) k i = Some u) \<or>
           (\<exists>w t u. slot d k i = Some t \<and> fst (Insert w w (Free t (AtlasTiles d))) = Some u \<and>
             AtlasTiles (set_tile k i (Some t') dn) = snd (Insert w w (Free t (AtlasTiles d))) \<and>
             slot (set_tile k i (Some t') dn) k i = Some u)"
        proof (cases "slot d k i")
          case None
          then have "p1 = AtlasTiles d" by (simp add: p1_def)
          with Some None put(3,4) show ?thesis
            unfolding ins_def by blast
        next
          case (Some t)
          then have "p1 = Free t (AtlasTiles d)" by (simp add: p1_def)
          with \<open>fst ins = Some t'\<close> Some put(3,4) show ?thesis
            unfolding ins_def by blast
        qed
        show ?thesis
          unfolding f k_def [symmetric] slot_step_def
        proof (intro conjI allI impI)
          show "shape (Objects (set_tile k i (Some t') dn))" by (rule put(1))
          show "slot (set_tile k i (Some t') dn) k' j = slot d k' j"
            if "j < 6" "(k', j) \<noteq> (k, i)" for k' j
            using that by (rule put(2))
          from third show "AtlasTiles (set_tile k i (Some t') dn) = AtlasTiles d \<and>
              slot (set_tile k i (Some t') dn) k i = slot d k i \<or>
            (\<exists>t. slot d k i = Some t \<and>
              AtlasTiles (set_tile k i (Some t') dn) = Free t (AtlasTiles d) \<and>
              slot (set_tile k i (Some t') dn) k i = None) \<or>
            (\<exists>w u. slot d k i = None \<and> fst (Insert w w (AtlasTiles d)) = Some u \<and>
              AtlasTiles (set_tile k i (Some t') dn) = snd (Insert w w (AtlasTiles d)) \<and>
              slot (set_tile k i (Some t') dn) k i = Some u) \<or>
            (\<exists>w t u. slot d k i = Some t \<and> fst (Insert w w (Free t (AtlasTiles d))) = Some u \<and>
              AtlasTiles (set_tile k i (Some t') dn) = snd (Insert w w (Free t (AtlasTiles d))) \<and>
              slot (set_tile k i (Some t') dn) k i = Some u)"
            by (rule disjI2 [OF disjI2])
        qed
      next
        case None
        then have sn: "snd ins = p1" unfolding ins_def by (rule Insert_None)
        show ?thesis
        proof (cases "slot d k i")
          case (Some t)
          then have e: "TryGet k (Objects d) \<noteq> None" by (rule slot_Some_TryGet)
          have p1: "p1 = Free t (AtlasTiles d)" using Some by (simp add: p1_def)
          have f: "fst (face a i (d, x, y)) =
              (set_tile k i None (d\<lparr>AtlasTiles := Free t (AtlasTiles d)\<rparr>))
                \<lparr>LastFrameAtlasInsertFail := CurrentFrame d\<rparr>"
            using fp None e by (simp add: sn p1)
          have "slot_step d (set_tile k i None (d\<lparr>AtlasTiles := Free t (AtlasTiles d)\<rparr>)) k i"
            by (rule slot_step_free [OF sh i Some]) simp_all
          then show ?thesis
            unfolding f k_def [symmetric] by (rule slot_step_irrelevant) simp_all
        next
          case sN: None
          have p1: "p1 = AtlasTiles d" using sN by (simp add: p1_def)
          define d' where "d' = fst (face a i (d, x, y))"
          have f: "d' = (if TryGet k (Objects d) \<noteq> None
               then set_tile k i None (d\<lparr>AtlasTiles := AtlasTiles d\<rparr>)
               else d\<lparr>AtlasTiles := AtlasTiles d\<rparr>)
                \<lparr>LastFrameAtlasInsertFail := CurrentFrame d\<rparr>"
            using fp None by (simp add: sn p1 d'_def)
          have sh': "shape (Objects d')"
            using sh by (simp add: f shape_set_tile set_tile_def shape_modify)
          have at: "AtlasTiles d' = AtlasTiles d" by (simp add: f set_tile_def)
          have sl: "slot d' k' j = slot d k' j" if "j < 6" for k' j
          proof (cases "TryGet k (Objects d) \<noteq> None")
            case True
            have "slot d' k' j = slot (set_tile k i None d) k' j"
              using True by (intro slot_Objects_cong) (simp add: f set_tile_def)
            also have "\<dots> = slot d k' j"
              using slot_set_tile [OF sh i that, of k None k'] sN by auto
            finally show ?thesis .
          next
            case False
            then show ?thesis by (intro slot_Objects_cong) (simp add: f)
          qed
          show ?thesis
            unfolding d'_def [symmetric] k_def [symmetric] slot_step_def
            using sh' at sl i by simp
        qed
      qed
    qed
  qed
qed


lemma cache_wfD:
  assumes "cache_wf d"
  shows "shape (Objects d)"
    and "\<And>k i t. i < 6 \<Longrightarrow> slot d k i = Some t \<Longrightarrow> t < length (AtlasTiles d)"
    and "\<And>k i t. i < 6 \<Longrightarrow> slot d k i = Some t \<Longrightarrow> IsUsed (AtlasTiles d ! t)"
    and "\<And>k k' i j t. i < 6 \<Longrightarrow> j < 6 \<Longrightarrow> slot d k i = Some t \<Longrightarrow> slot d k' j = Some t
           \<Longrightarrow> k = k' \<and> i = j"
proof -
  from assms have c: "shape (Objects d) \<and>
     (\<forall>k i t. i < 6 \<longrightarrow> slot d k i = Some t \<longrightarrow>
        t < length (AtlasTiles d) \<and> IsUsed (AtlasTiles d ! t)) \<and>
     (\<forall>k k' i j t. i < 6 \<longrightarrow> j < 6 \<longrightarrow> slot d k i = Some t \<longrightarrow> slot d k' j = Some t \<longrightarrow>
        k = k' \<and> i = j)"
    by (rule cache_wf_iff [THEN iffD1])
  show "shape (Objects d)" using c by (rule conjunct1)
  show "t < length (AtlasTiles d)" if "i < 6" "slot d k i = Some t" for k i t
    using c [THEN conjunct2, THEN conjunct1, rule_format, OF that] by (rule conjunct1)
  show "IsUsed (AtlasTiles d ! t)" if "i < 6" "slot d k i = Some t" for k i t
    using c [THEN conjunct2, THEN conjunct1, rule_format, OF that] by (rule conjunct2)
  show "k = k' \<and> i = j" if "i < 6" "j < 6" "slot d k i = Some t" "slot d k' j = Some t"
    for k k' i j t
    using c [THEN conjunct2, THEN conjunct2, rule_format, OF that] .
qed

lemma cache_wfI:
  assumes "shape (Objects d)"
    and "\<And>k i t. i < 6 \<Longrightarrow> slot d k i = Some t \<Longrightarrow>
           t < length (AtlasTiles d) \<and> IsUsed (AtlasTiles d ! t)"
    and "\<And>k k' i j t. i < 6 \<Longrightarrow> j < 6 \<Longrightarrow> slot d k i = Some t \<Longrightarrow> slot d k' j = Some t
           \<Longrightarrow> k = k' \<and> i = j"
  shows "cache_wf d"
proof (rule cache_wf_iff [THEN iffD2], intro conjI allI impI)
  show "shape (Objects d)" by (rule assms(1))
  show "t < length (AtlasTiles d)" if "i < 6" "slot d k i = Some t" for k i t
    using assms(2) [OF that] by (rule conjunct1)
  show "IsUsed (AtlasTiles d ! t)" if "i < 6" "slot d k i = Some t" for k i t
    using assms(2) [OF that] by (rule conjunct2)
  show "k = k'" if "i < 6" "j < 6" "slot d k i = Some t" "slot d k' j = Some t" for k k' i j t
    using assms(3) [OF that] by (rule conjunct1)
  show "i = j" if "i < 6" "j < 6" "slot d k i = Some t" "slot d k' j = Some t" for k k' i j t
    using assms(3) [OF that] by (rule conjunct2)
qed

lemma slot_step_cases [consumes 1, case_names same free new refit]:
  assumes "slot_step d d' k i"
  obtains "AtlasTiles d' = AtlasTiles d" "slot d' k i = slot d k i"
  | t where "slot d k i = Some t" "AtlasTiles d' = Free t (AtlasTiles d)" "slot d' k i = None"
  | w t' where "slot d k i = None" "fst (Insert w w (AtlasTiles d)) = Some t'"
      "AtlasTiles d' = snd (Insert w w (AtlasTiles d))" "slot d' k i = Some t'"
  | w t t' where "slot d k i = Some t" "fst (Insert w w (Free t (AtlasTiles d))) = Some t'"
      "AtlasTiles d' = snd (Insert w w (Free t (AtlasTiles d)))" "slot d' k i = Some t'"
proof -
  from assms have "(AtlasTiles d' = AtlasTiles d \<and> slot d' k i = slot d k i) \<or>
       (\<exists>t. slot d k i = Some t \<and> AtlasTiles d' = Free t (AtlasTiles d) \<and> slot d' k i = None) \<or>
       (\<exists>w t'. slot d k i = None \<and> fst (Insert w w (AtlasTiles d)) = Some t' \<and>
           AtlasTiles d' = snd (Insert w w (AtlasTiles d)) \<and> slot d' k i = Some t') \<or>
       (\<exists>w t t'. slot d k i = Some t \<and> fst (Insert w w (Free t (AtlasTiles d))) = Some t' \<and>
           AtlasTiles d' = snd (Insert w w (Free t (AtlasTiles d))) \<and> slot d' k i = Some t')"
    unfolding slot_step_def by (elim conjE)
  then show thesis
  proof (elim disjE exE conjE)
    assume "AtlasTiles d' = AtlasTiles d" "slot d' k i = slot d k i"
    then show thesis by (rule that(1))
  next
    fix t assume "slot d k i = Some t" "AtlasTiles d' = Free t (AtlasTiles d)" "slot d' k i = None"
    then show thesis by (rule that(2))
  next
    fix w t' assume "slot d k i = None" "fst (Insert w w (AtlasTiles d)) = Some t'"
      "AtlasTiles d' = snd (Insert w w (AtlasTiles d))" "slot d' k i = Some t'"
    then show thesis by (rule that(3))
  next
    fix w t t' assume "slot d k i = Some t" "fst (Insert w w (Free t (AtlasTiles d))) = Some t'"
      "AtlasTiles d' = snd (Insert w w (Free t (AtlasTiles d)))" "slot d' k i = Some t'"
    then show thesis by (rule that(4))
  qed
qed

text \<open>What a step does to a tile that is owned by another slot.\<close>

lemma slot_step_other_tile:
  assumes wf: "cache_wf d" and i: "i < 6" and st: "slot_step d d' k i"
    and j: "j < 6" and ne: "(k', j) \<noteq> (k, i)" and s: "slot d k' j = Some u"
  shows "u < length (AtlasTiles d')" and "AtlasTiles d' ! u = AtlasTiles d ! u"
proof -
  note w = cache_wfD [OF wf]
  have ul: "u < length (AtlasTiles d)" and uu: "IsUsed (AtlasTiles d ! u)"
    using w(2,3) [OF j s] by simp_all
  have not_own: "u \<noteq> t" if "slot d k i = Some t" for t
  proof
    assume "u = t"
    with that have "slot d k i = Some u" by simp
    from w(4) [OF j i s this] ne show False by simp
  qed
  from st have "u < length (AtlasTiles d') \<and> AtlasTiles d' ! u = AtlasTiles d ! u"
  proof (cases rule: slot_step_cases)
    case same
    with ul show ?thesis by simp
  next
    case (free t)
    with ul not_own [OF free(1)] show ?thesis by (simp add: Free_nth)
  next
    case (new w0 t')
    note I = Insert_Some [OF new(2)]
    from I(2) uu have "u \<noteq> t'" by (auto simp: fits_def)
    with I(3) I(5) [OF ul] ul new(3) show ?thesis by simp
  next
    case (refit w0 t t')
    note I = Insert_Some [OF refit(2)]
    have ut: "u \<noteq> t" by (rule not_own [OF refit(1)])
    then have fu: "Free t (AtlasTiles d) ! u = AtlasTiles d ! u" using ul by (simp add: Free_nth)
    from I(2) uu fu have "u \<noteq> t'" by (auto simp: fits_def)
    with I(3) I(5) [of u] ul refit(3) fu show ?thesis by simp
  qed
  then show "u < length (AtlasTiles d')" and "AtlasTiles d' ! u = AtlasTiles d ! u" by simp_all
qed

text \<open>The tile that a step puts into its own slot is a live tile no other slot owns.\<close>

lemma slot_step_own_tile:
  assumes wf: "cache_wf d" and i: "i < 6" and st: "slot_step d d' k i"
    and s: "slot d' k i = Some u"
  shows "u < length (AtlasTiles d')" and "IsUsed (AtlasTiles d' ! u)"
    and "\<And>k' j. j < 6 \<Longrightarrow> (k', j) \<noteq> (k, i) \<Longrightarrow> slot d k' j \<noteq> Some u"
proof -
  note w = cache_wfD [OF wf]
  from st have "u < length (AtlasTiles d') \<and> IsUsed (AtlasTiles d' ! u) \<and>
      (\<forall>k' j. j < 6 \<longrightarrow> (k', j) \<noteq> (k, i) \<longrightarrow> slot d k' j \<noteq> Some u)"
  proof (cases rule: slot_step_cases)
    case same
    with s have su: "slot d k i = Some u" by simp
    have "slot d k' j \<noteq> Some u" if "j < 6" "(k', j) \<noteq> (k, i)" for k' j
    proof
      assume "slot d k' j = Some u"
      from w(4) [OF that(1) i this su] that(2) show False by simp
    qed
    with w(2,3) [OF i su] same(1) show ?thesis by simp
  next
    case (free t)
    with s show ?thesis by simp
  next
    case (new w0 t')
    with s have u: "t' = u" by simp
    note I = Insert_Some [OF new(2) [unfolded u]]
    have "slot d k' j \<noteq> Some u" if "j < 6" for k' j
    proof
      assume "slot d k' j = Some u"
      from w(3) [OF that this] I(2) show False by (simp add: fits_def)
    qed
    with I(1,3,4) new(3) show ?thesis by simp
  next
    case (refit w0 t t')
    with s have u: "t' = u" by simp
    note I = Insert_Some [OF refit(2) [unfolded u]]
    have "slot d k' j \<noteq> Some u" if "j < 6" "(k', j) \<noteq> (k, i)" for k' j
    proof
      assume a: "slot d k' j = Some u"
      have "u \<noteq> t"
      proof
        assume "u = t"
        with refit(1) have "slot d k i = Some u" by simp
        from w(4) [OF that(1) i a this] that(2) show False by simp
      qed
      with I(1) have "Free t (AtlasTiles d) ! u = AtlasTiles d ! u" by (simp add: Free_nth)
      with w(3) [OF that(1) a] I(2) show False by (simp add: fits_def)
    qed
    with I(1,3,4) refit(3) show ?thesis by simp
  qed
  then show "u < length (AtlasTiles d')" and "IsUsed (AtlasTiles d' ! u)"
    and "\<And>k' j. j < 6 \<Longrightarrow> (k', j) \<noteq> (k, i) \<Longrightarrow> slot d k' j \<noteq> Some u"
    by simp_all
qed

lemma slot_step_others:
  assumes "slot_step d d' k i" and "j < 6" and "(k', j) \<noteq> (k, i)"
  shows "slot d' k' j = slot d k' j"
proof -
  from assms(1) have "\<forall>k' j. j < 6 \<longrightarrow> (k', j) \<noteq> (k, i) \<longrightarrow> slot d' k' j = slot d k' j"
    unfolding slot_step_def by (elim conjE)
  with assms(2,3) show ?thesis by simp
qed

lemma cache_wf_slot_step:
  assumes wf: "cache_wf d" and i: "i < 6" and st: "slot_step d d' k i"
  shows "cache_wf d'"
proof (rule cache_wfI)
  show "shape (Objects d')" using st by (simp add: slot_step_def)
next
  fix k' j t assume j: "j < 6" and s: "slot d' k' j = Some t"
  show "t < length (AtlasTiles d') \<and> IsUsed (AtlasTiles d' ! t)"
  proof (cases "(k', j) = (k, i)")
    case True
    with s slot_step_own_tile(1,2) [OF wf i st, of t] show ?thesis by simp
  next
    case False
    with s slot_step_others [OF st j False] have s0: "slot d k' j = Some t" by simp
    from slot_step_other_tile [OF wf i st j False s0] cache_wfD(3) [OF wf j s0]
    show ?thesis by simp
  qed
next
  fix k1 k2 j1 j2 t
  assume j: "j1 < 6" "j2 < 6" and s: "slot d' k1 j1 = Some t" "slot d' k2 j2 = Some t"
  show "k1 = k2 \<and> j1 = j2"
  proof (cases "(k1, j1) = (k, i)")
    case own1: True
    show ?thesis
    proof (cases "(k2, j2) = (k, i)")
      case True
      with own1 show ?thesis by simp
    next
      case False
      from s(1) own1 have "slot d' k i = Some t" by simp
      from slot_step_own_tile(3) [OF wf i st this j(2) False]
        slot_step_others [OF st j(2) False] s(2)
      show ?thesis by simp
    qed
  next
    case other1: False
    have s1: "slot d k1 j1 = Some t" using slot_step_others [OF st j(1) other1] s(1) by simp
    show ?thesis
    proof (cases "(k2, j2) = (k, i)")
      case True
      with s(2) have "slot d' k i = Some t" by simp
      from slot_step_own_tile(3) [OF wf i st this j(1) other1] s1
      show ?thesis by simp
    next
      case False
      have s2: "slot d k2 j2 = Some t" using slot_step_others [OF st j(2) False] s(2) by simp
      from cache_wfD(4) [OF wf j s1 s2] show ?thesis .
    qed
  qed
qed

lemma face_cache_wf:
  "cache_wf d \<Longrightarrow> i < 6 \<Longrightarrow> cache_wf (fst (face a i (d, x, y)))"
proof -
  assume wf: "cache_wf d" and i: "i < 6"
  from cache_wfD(1) [OF wf] i have "slot_step d (fst (face a i (d, x, y))) (actorObject a) i"
    by (rule face_effect)
  with wf i show ?thesis by (rule cache_wf_slot_step)
qed


lemma modify_absent: "TryGet k objs = None \<Longrightarrow> modify k f objs = objs"
proof -
  assume "TryGet k objs = None"
  then have "k \<notin> fst ` set objs" by (simp add: TryGet_def map_of_eq_None_iff)
  then have "\<forall>e \<in> set objs. (case e of (k', ob) \<Rightarrow> if k' = k then (k', f ob) else (k', ob)) = e"
    by (auto simp: image_iff)
  then show ?thesis unfolding modify_def by (simp add: map_idI)
qed

lemma face_Objects:
  "Objects (fst (face a i (d, x, y))) =
     (case written a i d of
        None \<Rightarrow> Objects d
      | Some v \<Rightarrow>
          modify (actorObject a) (\<lambda>ob. ob\<lparr>Tiles := (Tiles ob)[i := v]\<rparr>)
            (if v = None then Objects d else At (actorObject a) (Objects d)))"
proof (cases "push_bit i 1 AND tilesMask a = 0")
  case True
  then show ?thesis by (simp add: face_masked written_def)
next
  case mask: False
  show ?thesis
  proof (cases "faceResolution a i < 4")
    case small: True
    show ?thesis
      using mask small face_small [OF mask small, of d x y]
      by (cases "slot d (actorObject a) i") (simp_all add: written_def set_tile_def)
  next
    case big: False
    show ?thesis
    proof (cases "keeps a i d")
      case True
      with mask big face_keep [OF mask big True, of x y] show ?thesis
        by (simp add: written_def)
    next
      case nk: False
      note fp = face_pack [OF mask big nk, of x y, unfolded Let_def, folded attempt_def]
      have w: "written a i d = Some (fst (attempt a i d))"
        using mask big nk by (simp add: written_def)
      show ?thesis
      proof (cases "fst (attempt a i d)")
        case None
        show ?thesis
        proof (cases "TryGet (actorObject a) (Objects d)")
          case n: None
          with fp None w show ?thesis by (simp add: modify_absent)
        next
          case (Some ob)
          with fp None w show ?thesis by (simp add: set_tile_def)
        qed
      next
        case (Some t')
        with fp w show ?thesis by (simp add: set_tile_def)
      qed
    qed
  qed
qed

lemma face_anyTile:
  "fst (snd (face a i (d, x, y))) =
     (x \<or> (push_bit i 1 AND tilesMask a \<noteq> 0 \<and> \<not> faceResolution a i < 4 \<and>
           (keeps a i d \<or> fst (attempt a i d) \<noteq> None)))"
proof (cases "push_bit i 1 AND tilesMask a = 0")
  case True
  then show ?thesis by (simp add: face_masked)
next
  case mask: False
  show ?thesis
  proof (cases "faceResolution a i < 4")
    case small: True
    show ?thesis
      using mask small face_small [OF mask small, of d x y]
      by (cases "slot d (actorObject a) i") simp_all
  next
    case big: False
    show ?thesis
    proof (cases "keeps a i d")
      case True
      with mask big face_keep [OF mask big True, of x y] show ?thesis by simp
    next
      case nk: False
      note fp = face_pack [OF mask big nk, of x y, unfolded Let_def, folded attempt_def]
      show ?thesis
        using fp mask big nk by (cases "fst (attempt a i d)") simp_all
    qed
  qed
qed

lemma face_dirty:
  "snd (snd (face a i (d, x, y))) =
     (y \<or> (push_bit i 1 AND tilesMask a \<noteq> 0 \<and> \<not> faceResolution a i < 4 \<and>
           \<not> keeps a i d \<and> fst (attempt a i d) \<noteq> None))"
proof (cases "push_bit i 1 AND tilesMask a = 0")
  case True
  then show ?thesis by (simp add: face_masked)
next
  case mask: False
  show ?thesis
  proof (cases "faceResolution a i < 4")
    case small: True
    show ?thesis
      using mask small face_small [OF mask small, of d x y]
      by (cases "slot d (actorObject a) i") simp_all
  next
    case big: False
    show ?thesis
    proof (cases "keeps a i d")
      case True
      with mask big face_keep [OF mask big True, of x y] show ?thesis by simp
    next
      case nk: False
      note fp = face_pack [OF mask big nk, of x y, unfolded Let_def, folded attempt_def]
      show ?thesis
        using fp mask big nk by (cases "fst (attempt a i d)") simp_all
    qed
  qed
qed

lemma face_other_entry:
  "k' \<noteq> actorObject a \<Longrightarrow> TryGet k' (Objects (fst (face a i (d, x, y)))) = TryGet k' (Objects d)"
  by (simp add: face_Objects TryGet_modify TryGet_At split: option.splits)

lemma face_entry_stamps:
  "TryGet k' (Objects d) = Some ob \<Longrightarrow>
   \<exists>ob'. TryGet k' (Objects (fst (face a i (d, x, y)))) = Some ob' \<and> stamps ob' = stamps ob"
  by (auto simp: face_Objects TryGet_modify TryGet_At stamps_def split: option.splits)

lemma face_entry_created:
  assumes "TryGet k' (Objects d) = None" and "TryGet k' (Objects (fst (face a i (d, x, y)))) = Some ob"
  shows "k' = actorObject a" and "fst (attempt a i d) \<noteq> None" and "fst (snd (face a i (d, x, y)))"
    and "stamps ob = (0, 0, 0)"
proof -
  from assms have w: "written a i d = Some (fst (attempt a i d))"
    and f: "fst (attempt a i d) \<noteq> None" and k: "k' = actorObject a"
    by (auto simp: face_Objects TryGet_modify TryGet_At written_def
        split: option.splits if_splits)
  show "k' = actorObject a" by (rule k)
  show "fst (attempt a i d) \<noteq> None" by (rule f)
  from w f show "fst (snd (face a i (d, x, y)))"
    by (auto simp: face_anyTile written_def split: if_splits option.splits)
  from assms w f k show "stamps ob = (0, 0, 0)"
    by (auto simp: face_Objects TryGet_modify TryGet_At stamps_def
        GlobalSurfaceAtlasObject_new_def split: option.splits if_splits)
qed


lemma face_slot:
  assumes sh: "shape (Objects d)" and i: "i < 6"
  shows "slot (fst (face a i (d, x, y))) (actorObject a) i =
     (case written a i d of None \<Rightarrow> slot d (actorObject a) i | Some v \<Rightarrow> v)"
proof (cases "written a i d")
  case None
  then show ?thesis by (simp add: slot_def face_Objects)
next
  case (Some v)
  define k where "k = actorObject a"
  define objs where "objs = (if v = None then Objects d else At k (Objects d))"
  have sh': "shape objs" using sh by (simp add: objs_def shape_At)
  have O: "Objects (fst (face a i (d, x, y))) =
      modify k (\<lambda>ob. ob\<lparr>Tiles := (Tiles ob)[i := v]\<rparr>) objs"
    by (simp add: face_Objects Some objs_def k_def)
  show ?thesis
  proof (cases "TryGet k objs")
    case None
    then have "v = None" by (auto simp: objs_def TryGet_At split: if_splits)
    with None Some show ?thesis
      by (simp add: slot_def O TryGet_modify k_def [symmetric])
  next
    case (Some ob)
    with sh' have "length (Tiles ob) = 6" by (rule shape_length)
    with Some \<open>written a i d = Some v\<close> i show ?thesis
      by (simp add: slot_def O TryGet_modify k_def [symmetric])
  qed
qed

lemma keeps_slot: "keeps a i d \<Longrightarrow> slot d (actorObject a) i \<noteq> None"
  by (auto simp: keeps_def split: option.splits)

lemma face_anyTile_new:
  assumes sh: "shape (Objects d)" and i: "i < 6"
    and "\<not> x" and "fst (snd (face a i (d, x, y)))"
  shows "slot (fst (face a i (d, x, y))) (actorObject a) i \<noteq> None"
proof -
  from assms(3,4) have m: "push_bit i 1 AND tilesMask a \<noteq> 0" "\<not> faceResolution a i < 4"
    and c: "keeps a i d \<or> fst (attempt a i d) \<noteq> None"
    by (auto simp: face_anyTile)
  show ?thesis
  proof (cases "keeps a i d")
    case True
    with m keeps_slot [OF True] show ?thesis
      by (simp add: face_slot [OF sh i] written_def)
  next
    case False
    with m c show ?thesis by (simp add: face_slot [OF sh i] written_def)
  qed
qed

text \<open>The loop over the faces: once \<^verbatim>\<open>anyTile\<close> is set, a face already visited has a tile.\<close>

lemma faces_anyTile:
  assumes "cache_wf (fst st)" and "distinct js" and "\<forall>i \<in> set js. i < 6"
    and "fst (snd st) \<longrightarrow> (\<exists>j < 6. j \<notin> set js \<and> slot (fst st) (actorObject a) j \<noteq> None)"
  shows "fst (snd (fold (face a) js st)) \<longrightarrow>
     (\<exists>j < 6. slot (fst (fold (face a) js st)) (actorObject a) j \<noteq> None)"
  using assms
proof (induction js arbitrary: st)
  case Nil
  then show ?case by auto
next
  case (Cons i js)
  obtain d x y where st: "st = (d, x, y)" by (cases st) auto
  define st' where "st' = face a i (d, x, y)"
  from Cons.prems have wf: "cache_wf d" and i: "i < 6" and ni: "i \<notin> set js"
    by (simp_all add: st)
  have sh: "shape (Objects d)" using wf by (rule cache_wfD(1))
  have step: "slot_step d (fst st') (actorObject a) i"
    unfolding st'_def using sh i by (rule face_effect)
  have wf': "cache_wf (fst st')" using wf i step by (rule cache_wf_slot_step)
  have inv: "fst (snd st') \<longrightarrow> (\<exists>j < 6. j \<notin> set js \<and> slot (fst st') (actorObject a) j \<noteq> None)"
  proof
    assume any: "fst (snd st')"
    show "\<exists>j < 6. j \<notin> set js \<and> slot (fst st') (actorObject a) j \<noteq> None"
    proof (cases x)
      case True
      with Cons.prems(4) obtain j where j: "j < 6" "j \<notin> set (i # js)"
        "slot d (actorObject a) j \<noteq> None"
        by (auto simp: st)
      then have "(actorObject a, j) \<noteq> (actorObject a, i)" by simp
      from slot_step_others [OF step j(1) this] j show ?thesis by auto
    next
      case False
      from face_anyTile_new [OF sh i False any [unfolded st'_def]] i ni
      show ?thesis by (auto simp: st'_def)
    qed
  qed
  have "fst (snd (fold (face a) js st')) \<longrightarrow>
     (\<exists>j < 6. slot (fst (fold (face a) js st')) (actorObject a) j \<noteq> None)"
    using wf' Cons.prems(2,3) inv by (intro Cons.IH) simp_all
  then show ?case by (simp add: st st'_def)
qed

lemma upt_6: "[0..<6] = [0, 1, 2, 3, 4, 5]"
  by (simp add: upt_rec)

lemma faces_other_entry:
  "k' \<noteq> actorObject a \<Longrightarrow>
   TryGet k' (Objects (fst (fold (face a) js st))) = TryGet k' (Objects (fst st))"
proof (induction js arbitrary: st)
  case Nil
  then show ?case by simp
next
  case (Cons i js)
  obtain d x y where st: "st = (d, x, y)" by (cases st) auto
  from Cons show ?case by (simp add: st face_other_entry)
qed

lemma faces_anyTile_mono:
  "fst (snd st) \<Longrightarrow> fst (snd (fold (face a) js st))"
proof (induction js arbitrary: st)
  case Nil
  then show ?case by simp
next
  case (Cons i js)
  obtain d x y where st: "st = (d, x, y)" by (cases st) auto
  from Cons.prems have "fst (snd (face a i st))" by (simp add: st face_anyTile)
  from Cons.IH [OF this] show ?case by simp
qed

lemma faces_entry_stamps:
  "TryGet k' (Objects (fst st)) = Some ob \<Longrightarrow>
   \<exists>ob'. TryGet k' (Objects (fst (fold (face a) js st))) = Some ob' \<and> stamps ob' = stamps ob"
proof (induction js arbitrary: st ob)
  case Nil
  then show ?case by simp
next
  case (Cons i js)
  obtain d x y where st: "st = (d, x, y)" by (cases st) auto
  from Cons.prems face_entry_stamps [of k' d ob a i x y] obtain ob1 where
    o1: "TryGet k' (Objects (fst (face a i st))) = Some ob1" "stamps ob1 = stamps ob"
    by (auto simp: st)
  from Cons.IH [OF o1(1)] o1(2) show ?case by simp
qed

lemma faces_entry_created:
  assumes "TryGet k' (Objects (fst st)) = None"
    and "TryGet k' (Objects (fst (fold (face a) js st))) = Some ob"
  shows "k' = actorObject a \<and> fst (snd (fold (face a) js st)) \<and> stamps ob = (0, 0, 0)"
  using assms
proof (induction js arbitrary: st)
  case Nil
  then show ?case by simp
next
  case (Cons i js)
  obtain d x y where st: "st = (d, x, y)" by (cases st) auto
  show ?case
  proof (cases "TryGet k' (Objects (fst (face a i st)))")
    case None
    from Cons.IH [OF None] Cons.prems(2) show ?thesis by simp
  next
    case (Some ob1)
    from Cons.prems(1) Some face_entry_created [of k' d a i x y ob1]
    have c: "k' = actorObject a" "fst (snd (face a i st))" "stamps ob1 = (0, 0, 0)"
      by (simp_all add: st)
    from faces_entry_stamps [OF Some, where a = a and js = js] Cons.prems(2) c(3)
    have "stamps ob = (0, 0, 0)" by auto
    with c(1) faces_anyTile_mono [OF c(2), where js = js] show ?thesis by simp
  qed
qed


lemma modify_modify: "modify k f (modify k g objs) = modify k (f \<circ> g) objs"
  by (induction objs) (auto simp: modify_def)

lemma RasterizeActor_no_tile:
  assumes "fold (face a) [0..<6] (d, False, False) = (d', False, dirty)"
  shows "RasterizeActor a d = d'"
  using assms by (simp add: RasterizeActor_def)

lemma RasterizeActor_any_tile:
  assumes f: "fold (face a) [0..<6] (d, False, False) = (d', True, dirty)"
    and ob: "TryGet (actorObject a) (Objects d') = Some ob"
  shows "RasterizeActor a d =
     d'\<lparr>Objects := modify (actorObject a)
           (\<lambda>ob'. ob'\<lparr>Actor := actor a, LastFrameUsed := CurrentFrame d',
                      LastFrameDirty := (if dirty \<or> redraw_due a (CurrentFrame d') ob
                                         then CurrentFrame d' else LastFrameDirty ob')\<rparr>)
           (Objects d'),
         dirtyObjectsBuffer := (if dirty \<or> redraw_due a (CurrentFrame d') ob
                                then dirtyObjectsBuffer d' @ [actorObject a]
                                else dirtyObjectsBuffer d')\<rparr>"
proof (cases "dirty \<or> redraw_due a (CurrentFrame d') ob")
  case True
  have c: "(\<lambda>ob. ob\<lparr>LastFrameDirty := CurrentFrame d'\<rparr>) \<circ>
        (\<lambda>ob. ob\<lparr>Actor := actor a, LastFrameUsed := CurrentFrame d'\<rparr>) =
      (\<lambda>ob'. ob'\<lparr>Actor := actor a, LastFrameUsed := CurrentFrame d',
                 LastFrameDirty := CurrentFrame d'\<rparr>)"
    by (rule ext) simp
  from True show ?thesis
    unfolding RasterizeActor_def f
    by (simp add: ob Let_def redraw_due_def modify_modify c)
next
  case False
  have c: "(\<lambda>ob'. ob'\<lparr>Actor := actor a, LastFrameUsed := CurrentFrame d',
                 LastFrameDirty := LastFrameDirty ob'\<rparr>) =
      (\<lambda>ob. ob\<lparr>Actor := actor a, LastFrameUsed := CurrentFrame d'\<rparr>)"
    by (rule ext) simp
  from False show ?thesis
    unfolding RasterizeActor_def f
    by (simp add: ob Let_def redraw_due_def c)
qed

lemma cache_wf_cong_slots:
  assumes wf: "cache_wf d" and sh: "shape (Objects dd)"
    and sl: "\<And>k j. slot dd k j = slot d k j" and at: "AtlasTiles dd = AtlasTiles d"
  shows "cache_wf dd"
proof (rule cache_wfI [OF sh])
  note w = cache_wfD [OF wf]
  show "t < length (AtlasTiles dd) \<and> IsUsed (AtlasTiles dd ! t)"
    if "i < 6" "slot dd k i = Some t" for k i t
    using w(2,3) [OF that(1), of k t] that(2) by (simp add: sl at)
  show "k = k' \<and> i = j"
    if "i < 6" "j < 6" "slot dd k i = Some t" "slot dd k' j = Some t" for k k' i j t
    using w(4) [OF that(1,2), of k t k'] that(3,4) by (simp add: sl)
qed

lemma slot_modify_stamps:
  assumes "Objects dd = modify k g (Objects d)" and "\<And>ob. Tiles (g ob) = Tiles ob"
  shows "slot dd k' j = slot d k' j"
  using assms by (auto simp: slot_def TryGet_modify split: option.splits)

lemma cache_wf_modify_stamps:
  assumes wf: "cache_wf d" and o: "Objects dd = modify k g (Objects d)"
    and g: "\<And>ob. Tiles (g ob) = Tiles ob" and at: "AtlasTiles dd = AtlasTiles d"
  shows "cache_wf dd"
proof (rule cache_wf_cong_slots [OF wf _ _ at])
  show "shape (Objects dd)"
    unfolding o using cache_wfD(1) [OF wf] by (rule shape_modify) (simp add: g)
  show "slot dd k' j = slot d k' j" for k' j
    using o g by (rule slot_modify_stamps)
qed

lemma faces_cache_wf:
  "cache_wf (fst st) \<Longrightarrow> \<forall>i \<in> set js. i < 6 \<Longrightarrow> cache_wf (fst (fold (face a) js st))"
proof (induction js arbitrary: st)
  case Nil
  then show ?case by simp
next
  case (Cons i js)
  obtain d x y where st: "st = (d, x, y)" by (cases st) auto
  from Cons.prems have "cache_wf (fst (face a i st))"
    by (simp add: st face_cache_wf)
  from Cons.IH [OF this] Cons.prems(2) show ?case by simp
qed

lemma faces6_cache_wf:
  "cache_wf d \<Longrightarrow> cache_wf (fst (fold (face a) [0..<6] (d, False, False)))"
  using faces_cache_wf [where st = "(d, False, False)" and js = "[0..<6]" and a = a] by simp

lemma faces6_anyTile:
  assumes "cache_wf d" and "fst (snd (fold (face a) [0..<6] (d, False, False)))"
  shows "\<exists>j < 6. slot (fst (fold (face a) [0..<6] (d, False, False))) (actorObject a) j \<noteq> None"
  using faces_anyTile [where st = "(d, False, False)" and js = "[0..<6]" and a = a] assms by simp

lemma RasterizeActor_cache_wf:
  assumes wf: "cache_wf d"
  shows "cache_wf (RasterizeActor a d)"
proof -
  obtain d' any dirty where f: "fold (face a) [0..<6] (d, False, False) = (d', any, dirty)"
    by (cases "fold (face a) [0..<6] (d, False, False)") auto
  have wf': "cache_wf d'" using faces6_cache_wf [OF wf, of a] by (simp add: f)
  show ?thesis
  proof (cases any)
    case False
    with f wf' show ?thesis by (simp add: RasterizeActor_no_tile)
  next
    case True
    with f have f': "fold (face a) [0..<6] (d, False, False) = (d', True, dirty)" by simp
    show ?thesis
    proof (cases "TryGet (actorObject a) (Objects d')")
      case None
      with f True wf' show ?thesis by (simp add: RasterizeActor_def)
    next
      case (Some ob)
      show ?thesis
        unfolding RasterizeActor_any_tile [OF f' Some]
        by (rule cache_wf_modify_stamps [OF wf', where k = "actorObject a" and
              g = "\<lambda>ob'. ob'\<lparr>Actor := actor a, LastFrameUsed := CurrentFrame d',
                LastFrameDirty := (if dirty \<or> redraw_due a (CurrentFrame d') ob
                                   then CurrentFrame d' else LastFrameDirty ob')\<rparr>"])
          simp_all
    qed
  qed
qed

lemma RasterizeActor_other_entry:
  assumes "k' \<noteq> actorObject a"
  shows "TryGet k' (Objects (RasterizeActor a d)) = TryGet k' (Objects d)"
proof -
  obtain d' any dirty where f: "fold (face a) [0..<6] (d, False, False) = (d', any, dirty)"
    by (cases "fold (face a) [0..<6] (d, False, False)") auto
  have o: "TryGet k' (Objects d') = TryGet k' (Objects d)"
    using faces_other_entry [OF assms, where js = "[0..<6]" and st = "(d, False, False)"]
    by (simp add: f)
  show ?thesis
  proof (cases any)
    case False
    with f o show ?thesis by (simp add: RasterizeActor_no_tile)
  next
    case True
    with f have f': "fold (face a) [0..<6] (d, False, False) = (d', True, dirty)" by simp
    show ?thesis
    proof (cases "TryGet (actorObject a) (Objects d')")
      case None
      with f True o show ?thesis by (simp add: RasterizeActor_def)
    next
      case (Some ob)
      show ?thesis
        unfolding RasterizeActor_any_tile [OF f' Some]
        using assms o by (simp add: TryGet_modify)
    qed
  qed
qed


lemma free_tiles_length [simp]: "length (free_tiles ts p) = length p"
  unfolding free_tiles_def by (induction ts arbitrary: p) (simp_all split: option.splits)

lemma free_tiles_nth:
  "u < length p \<Longrightarrow>
   free_tiles ts p ! u = (if Some u \<in> set ts then (p ! u)\<lparr>IsUsed := False\<rparr> else p ! u)"
  unfolding free_tiles_def
proof (induction ts arbitrary: p)
  case Nil
  then show ?case by simp
next
  case (Cons s ts)
  show ?case
  proof (cases s)
    case None
    with Cons show ?thesis by simp
  next
    case (Some t)
    with Cons.prems Cons.IH [of "Free t p"] show ?thesis
      by (auto simp: Free_nth)
  qed
qed

lemma dead_tiles_Nil [simp]: "dead_tiles F [] = {}"
  by (simp add: dead_tiles_def)

lemma dead_tiles_Cons:
  "dead_tiles F ((k, ob) # es) =
     (if LastFrameUsed ob \<noteq> F then {t. Some t \<in> set (Tiles ob)} else {}) \<union> dead_tiles F es"
  by (auto simp: dead_tiles_def)

lemma remove_unused_Objects:
  "fst (remove_unused F es p) = filter (\<lambda>(k, ob). LastFrameUsed ob = F) es"
  by (induction F es p rule: remove_unused.induct) (simp_all add: case_prod_unfold)

lemma remove_unused_length [simp]: "length (snd (remove_unused F es p)) = length p"
  by (induction F es p rule: remove_unused.induct) (simp_all add: case_prod_unfold)

lemma remove_unused_nth:
  "u < length p \<Longrightarrow>
   snd (remove_unused F es p) ! u =
     (if u \<in> dead_tiles F es then (p ! u)\<lparr>IsUsed := False\<rparr> else p ! u)"
proof (induction F es p rule: remove_unused.induct)
  case (1 F p)
  then show ?case by simp
next
  case (2 F k ob es p)
  show ?case
  proof (cases "LastFrameUsed ob \<noteq> F")
    case True
    with 2 show ?thesis
      by (simp add: dead_tiles_Cons free_tiles_nth)
  next
    case False
    with 2 show ?thesis
      by (cases "remove_unused F es p") (simp add: dead_tiles_Cons)
  qed
qed

lemma TryGet_filter:
  "distinct (map fst objs) \<Longrightarrow>
   TryGet k (filter (\<lambda>(k, ob). P ob) objs) =
     (case TryGet k objs of None \<Rightarrow> None | Some ob \<Rightarrow> if P ob then Some ob else None)"
proof (induction objs)
  case Nil
  then show ?case by (simp add: TryGet_def)
next
  case (Cons e objs)
  obtain k0 ob0 where e: "e = (k0, ob0)" by (cases e)
  from Cons.prems have nk: "k0 \<notin> fst ` set objs" and dist: "distinct (map fst objs)"
    by (simp_all add: e)
  from nk have none: "map_of objs k0 = None" by (simp add: map_of_eq_None_iff)
  from Cons.IH [OF dist] none show ?case
    by (auto simp: e TryGet_def split: option.splits)
qed

lemma shape_filter: "shape objs \<Longrightarrow> shape (filter P objs)"
  by (auto simp: shape_def distinct_map_filter)

lemma RemoveUnusedObjects_fields:
  "Objects (RemoveUnusedObjects F d) = filter (\<lambda>(k, ob). LastFrameUsed ob = F) (Objects d)"
  "AtlasTiles (RemoveUnusedObjects F d) = snd (remove_unused F (Objects d) (AtlasTiles d))"
  using remove_unused_Objects [of F "Objects d" "AtlasTiles d"]
  by (cases "remove_unused F (Objects d) (AtlasTiles d)"; simp add: RemoveUnusedObjects_def)+

lemma slot_RemoveUnusedObjects:
  assumes "shape (Objects d)"
  shows "slot (RemoveUnusedObjects F d) k i =
     (case TryGet k (Objects d) of
        None \<Rightarrow> None
      | Some ob \<Rightarrow> if LastFrameUsed ob = F then Tiles ob ! i else None)"
  using assms
  by (simp add: slot_def RemoveUnusedObjects_fields TryGet_filter shape_def split: option.splits)

lemma dead_tile_owner:
  assumes sh: "shape (Objects d)" and "t \<in> dead_tiles F (Objects d)"
  obtains k ob j where "TryGet k (Objects d) = Some ob" "LastFrameUsed ob \<noteq> F" "j < 6"
    "slot d k j = Some t"
proof -
  from assms(2) obtain k ob where in_set: "(k, ob) \<in> set (Objects d)"
    and lf: "LastFrameUsed ob \<noteq> F" and t: "Some t \<in> set (Tiles ob)"
    by (auto simp: dead_tiles_def)
  from in_set have tg: "TryGet k (Objects d) = Some ob" by (simp add: shape_TryGet [OF sh])
  with sh have "length (Tiles ob) = 6" by (rule shape_length)
  with t obtain j where "j < 6" "Tiles ob ! j = Some t" by (auto simp: in_set_conv_nth)
  with tg have "slot d k j = Some t" by (simp add: slot_def)
  with tg lf \<open>j < 6\<close> show thesis by (rule that)
qed

lemma RemoveUnusedObjects_cache_wf:
  assumes wf: "cache_wf d"
  shows "cache_wf (RemoveUnusedObjects F d)"
proof (rule cache_wfI)
  note w = cache_wfD [OF wf]
  note sl = slot_RemoveUnusedObjects [OF w(1)]
  show "shape (Objects (RemoveUnusedObjects F d))"
    using w(1) by (simp add: RemoveUnusedObjects_fields shape_filter)
  have kept: "slot d k i = Some t \<and> (\<exists>ob. TryGet k (Objects d) = Some ob \<and> LastFrameUsed ob = F)"
    if "slot (RemoveUnusedObjects F d) k i = Some t" for k i t
    using that unfolding sl by (auto simp: slot_def split: option.splits if_splits)
  show "t < length (AtlasTiles (RemoveUnusedObjects F d)) \<and>
        IsUsed (AtlasTiles (RemoveUnusedObjects F d) ! t)"
    if i: "i < 6" and s: "slot (RemoveUnusedObjects F d) k i = Some t" for k i t
  proof -
    from kept [OF s] obtain ob where s0: "slot d k i = Some t"
      and ob: "TryGet k (Objects d) = Some ob" "LastFrameUsed ob = F" by blast
    have tl: "t < length (AtlasTiles d)" and tu: "IsUsed (AtlasTiles d ! t)"
      using w(2,3) [OF i s0] by simp_all
    have "t \<notin> dead_tiles F (Objects d)"
    proof
      assume "t \<in> dead_tiles F (Objects d)"
      then obtain k2 ob2 j where o2: "TryGet k2 (Objects d) = Some ob2" "LastFrameUsed ob2 \<noteq> F"
        "j < 6" "slot d k2 j = Some t"
        by (rule dead_tile_owner [OF w(1)])
      from w(4) [OF i o2(3) s0 o2(4)] have "k = k2" by simp
      with ob o2(1,2) show False by simp
    qed
    with tl tu show ?thesis
      by (simp add: RemoveUnusedObjects_fields remove_unused_nth)
  qed
  show "k = k' \<and> i = j"
    if "i < 6" "j < 6" "slot (RemoveUnusedObjects F d) k i = Some t"
      "slot (RemoveUnusedObjects F d) k' j = Some t" for k k' i j t
    using w(4) [OF that(1,2), of k t k'] kept [OF that(3)] kept [OF that(4)] by simp
qed

lemma cache_wf_fields:
  assumes "Objects dd = Objects d" and "AtlasTiles dd = AtlasTiles d"
  shows "cache_wf dd = cache_wf d"
  unfolding cache_wf_def assms ..

lemma cache_wf_Objects_Nil: "Objects d = [] \<Longrightarrow> cache_wf d"
  by (simp add: cache_wf_def shape_def)

lemma InitializeBuffers_cache_wf:
  "cache_wf d \<Longrightarrow> cache_wf (snd (InitializeBuffers e F r d))"
proof -
  assume wf: "cache_wf d"
  have "snd (InitializeBuffers e F r d) = d \<or> Objects (snd (InitializeBuffers e F r d)) = []"
    by (simp add: InitializeBuffers_def Let_def Clear_def ClearObjects_def)
  with wf show ?thesis by (auto intro: cache_wf_Objects_Nil)
qed

lemma NewAtlasTiles_cache_wf:
  assumes wf: "cache_wf d"
  shows "cache_wf (NewAtlasTiles r d)"
proof (cases "AtlasTiles d = []")
  case False
  with wf show ?thesis by (simp add: NewAtlasTiles_def)
next
  case True
  note w = cache_wfD [OF wf]
  have none: "slot d k i \<noteq> Some t" if "i < 6" for k i t
    using w(2) [OF that, of k t] True by auto
  have sl: "slot (NewAtlasTiles r d) k i = slot d k i" for k i
    by (rule slot_Objects_cong) (simp add: NewAtlasTiles_def)
  show ?thesis
  proof (rule cache_wfI)
    show "shape (Objects (NewAtlasTiles r d))" using w(1) by (simp add: NewAtlasTiles_def)
    show "t < length (AtlasTiles (NewAtlasTiles r d)) \<and> IsUsed (AtlasTiles (NewAtlasTiles r d) ! t)"
      if "i < 6" "slot (NewAtlasTiles r d) k i = Some t" for k i t
      using none [OF that(1), of k t] that(2) by (simp add: sl)
    show "k = k' \<and> i = j"
      if "i < 6" "j < 6" "slot (NewAtlasTiles r d) k i = Some t"
        "slot (NewAtlasTiles r d) k' j = Some t" for k k' i j t
      using none [OF that(1), of k t] that(3) by (simp add: sl)
  qed
qed

lemma fold_RasterizeActor_cache_wf: "cache_wf d \<Longrightarrow> cache_wf (fold RasterizeActor as d)"
  by (induction as arbitrary: d) (simp_all add: RasterizeActor_cache_wf)

lemma AddObjects_cache_wf: "cache_wf d \<Longrightarrow> cache_wf (AddObjects e F d)"
proof -
  assume "cache_wf d"
  moreover have "cache_wf (d\<lparr>dirtyObjectsBuffer := [], CurrentFrame := F\<rparr>) = cache_wf d"
    by (rule cache_wf_fields) simp_all
  ultimately have "cache_wf (d\<lparr>dirtyObjectsBuffer := [], CurrentFrame := F\<rparr>)"
    by simp
  then show ?thesis unfolding AddObjects_def by (rule fold_RasterizeActor_cache_wf)
qed

lemma CullObjects_Objects: "Objects (snd (CullObjects pf e F d)) = Objects d"
  by (simp add: CullObjects_def Let_def ReadCounter_state split: init_result.splits)

lemma CullObjects_AtlasTiles: "AtlasTiles (snd (CullObjects pf e F d)) = AtlasTiles d"
  by (simp add: CullObjects_def Let_def ReadCounter_def split: init_result.splits)

lemma CullObjects_cache_wf: "cache_wf d \<Longrightarrow> cache_wf (snd (CullObjects pf e F d))"
  using cache_wf_fields [OF CullObjects_Objects CullObjects_AtlasTiles, of pf e F d] by simp


lemma Render_phases:
  "Render pf e d =
     (if checkIfSkipPass e \<or> ScenesCount e = 0 \<or> sdfRenderFails e then (Return_true, d)
      else if CustomBuffer_LastFrameUsed d = FrameCount e then (Return_cached, d)
      else if fst (initialized pf e d) then (Return_true, snd (initialized pf e d))
      else CullObjects pf e (FrameCount e) (swept pf e d))"
  unfolding Render_def Let_def swept_def drawn_def prepared_def initialized_def resolution_of_def
  by simp

lemma Render_proceeds:
  "proceeds pf e d \<Longrightarrow> Render pf e d = CullObjects pf e (FrameCount e) (swept pf e d)"
  by (simp add: Render_phases proceeds_def)

lemma Render_not_proceeds:
  "\<not> proceeds pf e d \<Longrightarrow>
   snd (Render pf e d) = d \<or>
   (CustomBuffer_LastFrameUsed d \<noteq> FrameCount e \<and> fst (initialized pf e d) \<and>
    snd (Render pf e d) = snd (initialized pf e d))"
  by (auto simp: Render_phases proceeds_def)

lemma initialized_cases:
  "snd (initialized pf e d) = d\<lparr>CustomBuffer_LastFrameUsed := FrameCount e\<rparr> \<or>
   Objects (snd (initialized pf e d)) = []"
  by (simp add: initialized_def InitializeBuffers_def Let_def Clear_def ClearObjects_def)

lemma initialized_failed: "fst (initialized pf e d) \<Longrightarrow> Objects (snd (initialized pf e d)) = []"
  by (auto simp: initialized_def InitializeBuffers_def Let_def Clear_def ClearObjects_def
      split: if_splits)

lemma initialized_stamp:
  "CustomBuffer_LastFrameUsed (snd (initialized pf e d)) = FrameCount e"
  by (simp add: initialized_def InitializeBuffers_def Let_def Clear_def ClearObjects_def)

lemma initialized_cache_wf: "cache_wf d \<Longrightarrow> cache_wf (snd (initialized pf e d))"
proof -
  assume wf: "cache_wf d"
  have "cache_wf (d\<lparr>CustomBuffer_LastFrameUsed := FrameCount e\<rparr>) = cache_wf d"
    by (rule cache_wf_fields) simp_all
  with wf show ?thesis unfolding initialized_def by (intro InitializeBuffers_cache_wf) simp
qed

lemma prepared_cache_wf: "cache_wf d \<Longrightarrow> cache_wf (prepared pf e d)"
  unfolding prepared_def by (intro NewAtlasTiles_cache_wf initialized_cache_wf)

lemma drawn_cache_wf: "cache_wf d \<Longrightarrow> cache_wf (drawn pf e d)"
  unfolding drawn_def by (intro AddObjects_cache_wf prepared_cache_wf)

lemma swept_cache_wf: "cache_wf d \<Longrightarrow> cache_wf (swept pf e d)"
  unfolding swept_def by (intro RemoveUnusedObjects_cache_wf drawn_cache_wf)

lemma Render_cache_wf: "cache_wf d \<Longrightarrow> cache_wf (snd (Render pf e d))"
proof (cases "proceeds pf e d")
  case True
  assume "cache_wf d"
  then show ?thesis
    unfolding Render_proceeds [OF True] by (intro CullObjects_cache_wf swept_cache_wf)
next
  case False
  assume "cache_wf d"
  with Render_not_proceeds [OF False] initialized_cache_wf [of d pf e] show ?thesis by auto
qed

lemma frames_cache_wf: "cache_wf d \<Longrightarrow> cache_wf (frames pf es d)"
  by (induction es arbitrary: d) (simp_all add: Render_cache_wf)


section \<open>The state that the culling starts from\<close>

lemma swept_untouched:
  "untouched (swept pf e d) = untouched ((snd (initialized pf e d))\<lparr>CurrentFrame := FrameCount e\<rparr>)"
proof -
  have "untouched (swept pf e d) =
      untouched ((NewAtlasTiles (resolution_of pf e) (snd (initialized pf e d)))
        \<lparr>CurrentFrame := FrameCount e\<rparr>)"
    unfolding swept_def drawn_def prepared_def
    by (simp add: RemoveUnusedObjects_untouched AddObjects_untouched)
  also have "\<dots> = untouched ((snd (initialized pf e d))\<lparr>CurrentFrame := FrameCount e\<rparr>)"
    by (simp add: NewAtlasTiles_def untouched_def)
  finally show ?thesis .
qed

lemma swept_ChunksBuffer:
  "ChunksBuffer (swept pf e d) = ChunksBuffer (snd (initialized pf e d))"
  using arg_cong [OF swept_untouched, of ChunksBuffer pf e d] by (simp add: untouched_fields)

lemma swept_index:
  "CulledObjectsCounterIndex (swept pf e d) = CulledObjectsCounterIndex (snd (initialized pf e d))"
  using arg_cong [OF swept_untouched, of CulledObjectsCounterIndex pf e d]
  by (simp add: untouched_fields)

lemma swept_stamp:
  "CustomBuffer_LastFrameUsed (swept pf e d) = FrameCount e"
  using arg_cong [OF swept_untouched, of CustomBuffer_LastFrameUsed pf e d]
  by (simp add: untouched_fields initialized_stamp)

lemma swept_buffer:
  "buffer_size (swept pf e d) = buffer_size d"
proof -
  have "CulledObjectsBuffer (swept pf e d) = CulledObjectsBuffer (snd (initialized pf e d))"
    using arg_cong [OF swept_untouched, of CulledObjectsBuffer pf e d]
    by (simp add: untouched_fields)
  then show ?thesis by (simp add: buffer_size_def initialized_def InitializeBuffers_buffer)
qed

lemma initialized_index:
  "CulledObjectsCounterIndex (snd (initialized pf e d)) =
     (if Resolution d \<noteq> resolution_of pf e \<or>
         (FrameCount e - LastFrameAtlasInsertFail d < 10 \<and>
          FrameCount e - LastFrameAtlasDefragmentation d > 60)
      then - 1 else CulledObjectsCounterIndex d)"
  by (simp add: initialized_def InitializeBuffers_def Let_def Clear_def ClearObjects_def)

lemma initialized_ChunksBuffer:
  "ChunksBuffer (snd (initialized pf e d)) =
     (ChunksBuffer d \<or> (Resolution d \<noteq> resolution_of pf e \<and> texturesAvailable e))"
  by (simp add: initialized_def InitializeBuffers_def Let_def Clear_def ClearObjects_def)

lemma CullObjects_result:
  assumes "Objects d \<noteq> []"
  shows "fst (CullObjects pf e F d) =
     (if init_fails e d then Return_true else Return_notReady (ChunksBuffer d \<and> \<not> sampled e d))"
proof (cases "ChunksBuffer d \<and> \<not> culledObjectsSizeBuffer d \<and> sizeBufferInitFails e")
  case True
  with assms CullObjects_fail1 [of d e pf F] show ?thesis by (simp add: init_fails_def)
next
  case nf: False
  from CullObjects_main(1) [OF assms nf, of pf F] nf show ?thesis
    by (simp add: init_fails_def)
qed

lemma CullObjects_grown:
  assumes "Objects d \<noteq> []" and "\<not> init_fails e d"
  shows "buffer_size (snd (CullObjects pf e F d)) = max (buffer_size d) (capacity_request e d)"
proof -
  from assms(2) have nf: "\<not> (ChunksBuffer d \<and> \<not> culledObjectsSizeBuffer d \<and> sizeBufferInitFails e)"
    by (simp add: init_fails_def)
  show ?thesis
  proof (cases "buffer_size d < capacity_request e d")
    case True
    with assms(2) have ok: "culledObjectsBufferInit e = InitOk" by (simp add: init_fails_def)
    from CullObjects_main(2) [OF assms(1) nf ok, of pf F] True show ?thesis
      by (auto simp: max_def)
  next
    case False
    from CullObjects_main(3) [OF assms(1) nf False, of pf F] False show ?thesis
      by (auto simp: max_def)
  qed
qed


section \<open>The loop over the faces and the flag anyTile\<close>

lemma set_tile_fields:
  "AtlasTiles (set_tile k i v d) = AtlasTiles d"
  "LastFrameAtlasInsertFail (set_tile k i v d) = LastFrameAtlasInsertFail d"
  "CurrentFrame (set_tile k i v d) = CurrentFrame d"
  "dirtyObjectsBuffer (set_tile k i v d) = dirtyObjectsBuffer d"
  by (simp_all add: set_tile_def)

lemma face_dirtyObjectsBuffer:
  "dirtyObjectsBuffer (fst (face a i (d, x, y))) = dirtyObjectsBuffer d"
  by (simp add: face_def Let_def set_tile_def split: option.splits)

lemma faces_dirtyObjectsBuffer:
  "dirtyObjectsBuffer (fst (fold (face a) js st)) = dirtyObjectsBuffer (fst st)"
proof (induction js arbitrary: st)
  case Nil
  then show ?case by simp
next
  case (Cons i js)
  obtain d x y where st: "st = (d, x, y)" by (cases st) auto
  show ?case by (simp add: Cons.IH) (simp add: st face_dirtyObjectsBuffer)
qed

lemma faces_CurrentFrame:
  "CurrentFrame (fst (fold (face a) js st)) = CurrentFrame (fst st)"
  using arg_cong [OF faces_untouched, of CurrentFrame a js st] by (simp add: untouched_fields)

text \<open>Once a face has set \<^verbatim>\<open>anyTile\<close>, the object has an entry.\<close>

lemma face_any_entry:
  assumes "fst (snd (face a i (d, x, y)))" and "\<not> x"
  shows "TryGet (actorObject a) (Objects (fst (face a i (d, x, y)))) \<noteq> None"
proof -
  from assms have m: "push_bit i 1 AND tilesMask a \<noteq> 0" "\<not> faceResolution a i < 4"
    and c: "keeps a i d \<or> fst (attempt a i d) \<noteq> None"
    by (auto simp: face_anyTile)
  show ?thesis
  proof (cases "keeps a i d")
    case True
    from keeps_slot [OF True] have "TryGet (actorObject a) (Objects d) \<noteq> None"
      by (auto simp: slot_def split: option.splits)
    with face_keep [OF m True] show ?thesis by simp
  next
    case False
    with c obtain t where t: "fst (attempt a i d) = Some t" by auto
    from m False t have w: "written a i d = Some (Some t)" by (simp add: written_def)
    show ?thesis by (simp add: face_Objects w TryGet_modify TryGet_At)
  qed
qed

lemma faces_any_entry:
  assumes "fst (snd (fold (face a) js st))"
  shows "fst (snd st) \<or> TryGet (actorObject a) (Objects (fst (fold (face a) js st))) \<noteq> None"
  using assms
proof (induction js arbitrary: st)
  case Nil
  then show ?case by simp
next
  case (Cons i js)
  obtain d x y where st: "st = (d, x, y)" by (cases st) auto
  from Cons.IH [of "face a i st"] Cons.prems
  have "fst (snd (face a i st)) \<or>
        TryGet (actorObject a) (Objects (fst (fold (face a) js (face a i st)))) \<noteq> None"
    by simp
  then show ?case
  proof
    assume f: "fst (snd (face a i st))"
    show ?thesis
    proof (cases x)
      case True
      then show ?thesis by (simp add: st)
    next
      case False
      from face_any_entry [of a i d x y] f False
      obtain ob where "TryGet (actorObject a) (Objects (fst (face a i st))) = Some ob"
        by (auto simp: st)
      from faces_entry_stamps [OF this, of a js] show ?thesis by auto
    qed
  next
    assume "TryGet (actorObject a) (Objects (fst (fold (face a) js (face a i st)))) \<noteq> None"
    then show ?thesis by simp
  qed
qed

lemma stagger_unat:
  "unat (redrawFramesCount a + (actorID_D a AND redrawFramesCount a)) =
     unat (redrawFramesCount a) + unat (actorID_D a AND redrawFramesCount a)"
  "unat (actorID_D a AND redrawFramesCount a) \<le> unat (redrawFramesCount a)"
  "unat (redrawFramesCount a) = (if actorStatic a then 120 else 4)"
proof -
  show n: "unat (redrawFramesCount a) = (if actorStatic a then 120 else 4)"
    by (simp add: redrawFramesCount_def)
  have "actorID_D a AND redrawFramesCount a \<le> redrawFramesCount a"
    by (rule word_and_le1)
  then show le: "unat (actorID_D a AND redrawFramesCount a) \<le> unat (redrawFramesCount a)"
    by (simp add: word_le_nat_alt)
  from n le have "unat (redrawFramesCount a) + unat (actorID_D a AND redrawFramesCount a) < 2 ^ 32"
    by (simp split: if_splits)
  then show "unat (redrawFramesCount a + (actorID_D a AND redrawFramesCount a)) =
     unat (redrawFramesCount a) + unat (actorID_D a AND redrawFramesCount a)"
    by (simp add: unat_add_lem [THEN iffD1])
qed

lemma redraw_due_unat:
  "redraw_due a F ob \<longleftrightarrow>
     (if actorStatic a then 120 else 4) + unat (actorID_D a AND (if actorStatic a then 120 else 4))
       \<le> unat (F - LastFrameDirty ob)"
proof -
  have "unat (ucast (redrawFramesCount a + (actorID_D a AND redrawFramesCount a)) :: uint64) =
      unat (redrawFramesCount a + (actorID_D a AND redrawFramesCount a))"
  proof -
    have "unat (redrawFramesCount a + (actorID_D a AND redrawFramesCount a)) < 2 ^ 32"
      using unsigned_less [of "redrawFramesCount a + (actorID_D a AND redrawFramesCount a)",
          where 'a = nat] by simp
    also have "(2 :: nat) ^ 32 < 2 ^ 64" by simp
    finally show ?thesis by (simp add: unsigned_ucast_eq take_bit_nat_eq_self)
  qed
  then show ?thesis
    unfolding redraw_due_def word_le_nat_alt
    by (simp add: stagger_unat(1)) (simp add: redrawFramesCount_def)
qed

lemma slot_step_shape: "slot_step d d' k i \<Longrightarrow> shape (Objects d')"
  unfolding slot_step_def by (elim conjE)

lemma face_shape:
  "shape (Objects d) \<Longrightarrow> i < 6 \<Longrightarrow> shape (Objects (fst (face a i (d, x, y))))"
  by (rule slot_step_shape [OF face_effect])

lemma faces_shape:
  "shape (Objects (fst st)) \<Longrightarrow> \<forall>j \<in> set js. j < 6 \<Longrightarrow>
   shape (Objects (fst (fold (face a) js st)))"
proof (induction js arbitrary: st)
  case Nil
  then show ?case by simp
next
  case (Cons j js)
  obtain d x y where st: "st = (d, x, y)" by (cases st) auto
  from Cons.prems have "shape (Objects (fst (face a j st)))" by (simp add: st face_shape)
  from Cons.IH [OF this] Cons.prems(2) show ?case by simp
qed

lemma faces_slot_other:
  assumes "shape (Objects (fst st))" and "\<forall>j \<in> set js. j < 6" and "i < 6"
    and "k' \<noteq> actorObject a \<or> i \<notin> set js"
  shows "slot (fst (fold (face a) js st)) k' i = slot (fst st) k' i"
  using assms
proof (induction js arbitrary: st)
  case Nil
  then show ?case by simp
next
  case (Cons j js)
  obtain d x y where st: "st = (d, x, y)" by (cases st) auto
  from Cons.prems have sh: "shape (Objects d)" and j: "j < 6" by (simp_all add: st)
  have sh': "shape (Objects (fst (face a j st)))" using sh j by (simp add: st face_shape)
  from Cons.prems(4) have ne: "(k', i) \<noteq> (actorObject a, j)" by auto
  have "slot (fst (fold (face a) js (face a j st))) k' i = slot (fst (face a j st)) k' i"
    using Cons.IH [OF sh'] Cons.prems by auto
  also have "\<dots> = slot d k' i"
    using slot_step_others [OF face_effect [OF sh j, of a x y] \<open>i < 6\<close> ne] by (simp add: st)
  finally show ?case by (simp add: st)
qed

text \<open>
  A face selected by the mask has a tile after its turn only if the turn has set
  \<^verbatim>\<open>anyTile\<close>.
\<close>

lemma face_tile_any:
  assumes sh: "shape (Objects d)" and i: "i < 6" and m: "push_bit i 1 AND tilesMask a \<noteq> 0"
    and s: "slot (fst (face a i (d, x, y))) (actorObject a) i \<noteq> None"
  shows "fst (snd (face a i (d, x, y)))"
proof (cases "faceResolution a i < 4")
  case True
  with m s show ?thesis
    by (auto simp: face_slot [OF sh i] written_def split: option.splits)
next
  case big: False
  show ?thesis
  proof (cases "keeps a i d")
    case True
    with m big show ?thesis by (simp add: face_anyTile)
  next
    case False
    with m big s have "fst (attempt a i d) \<noteq> None"
      by (simp add: face_slot [OF sh i] written_def)
    with m big show ?thesis by (simp add: face_anyTile)
  qed
qed

lemma faces_tile_any:
  assumes "shape (Objects (fst st))" and "distinct js" and "\<forall>j \<in> set js. j < 6"
    and "i \<in> set js" and "push_bit i 1 AND tilesMask a \<noteq> 0"
    and "slot (fst (fold (face a) js st)) (actorObject a) i \<noteq> None"
  shows "fst (snd (fold (face a) js st))"
  using assms
proof (induction js arbitrary: st)
  case Nil
  then show ?case by simp
next
  case (Cons j js)
  obtain d x y where st: "st = (d, x, y)" by (cases st) auto
  from Cons.prems have sh: "shape (Objects d)" and j: "j < 6" and js: "\<forall>j \<in> set js. j < 6"
    and dj: "j \<notin> set js" "distinct js"
    by (simp_all add: st)
  have sh': "shape (Objects (fst (face a j st)))" using sh j by (simp add: st face_shape)
  show ?case
  proof (cases "i = j")
    case True
    have "slot (fst (fold (face a) js (face a j st))) (actorObject a) i =
        slot (fst (face a j st)) (actorObject a) i"
      using faces_slot_other [OF sh' js, of i "actorObject a" a] dj j True by simp
    with Cons.prems(6) have "slot (fst (face a i (d, x, y))) (actorObject a) i \<noteq> None"
      by (simp add: st True)
    from face_tile_any [OF sh _ Cons.prems(5) this] j True
    have "fst (snd (face a j st))" by (simp add: st)
    from faces_anyTile_mono [OF this] show ?thesis by simp
  next
    case False
    with Cons.prems(4) have "i \<in> set js" by simp
    from Cons.IH [OF sh' dj(2) js this Cons.prems(5)] Cons.prems(6) show ?thesis by simp
  qed
qed

lemma faces_any_tile:
  assumes "shape (Objects (fst st))" and "distinct js" and "\<forall>j \<in> set js. j < 6"
    and "\<not> fst (snd st)" and "fst (snd (fold (face a) js st))"
  shows "\<exists>i \<in> set js. push_bit i 1 AND tilesMask a \<noteq> 0 \<and>
     slot (fst (fold (face a) js st)) (actorObject a) i \<noteq> None"
  using assms
proof (induction js arbitrary: st)
  case Nil
  then show ?case by simp
next
  case (Cons j js)
  obtain d x y where st: "st = (d, x, y)" by (cases st) auto
  from Cons.prems have sh: "shape (Objects d)" and j: "j < 6" and js: "\<forall>j \<in> set js. j < 6"
    and dj: "j \<notin> set js" "distinct js" and x: "\<not> x"
    by (simp_all add: st)
  have sh': "shape (Objects (fst (face a j st)))" using sh j by (simp add: st face_shape)
  show ?case
  proof (cases "fst (snd (face a j st))")
    case True
    from True x have m: "push_bit j 1 AND tilesMask a \<noteq> 0" by (auto simp: st face_anyTile)
    from face_anyTile_new [OF sh j x] True
    have "slot (fst (face a j st)) (actorObject a) j \<noteq> None" by (simp add: st)
    moreover have "slot (fst (fold (face a) js (face a j st))) (actorObject a) j =
        slot (fst (face a j st)) (actorObject a) j"
      using faces_slot_other [OF sh' js, of j "actorObject a" a] dj j by simp
    ultimately show ?thesis using m by auto
  next
    case False
    from Cons.IH [OF sh' dj(2) js False] Cons.prems(5) show ?thesis by auto
  qed
qed

lemma faces6_any_iff:
  assumes "shape (Objects d)"
  shows "fst (snd (fold (face a) [0..<6] (d, False, False))) \<longleftrightarrow>
     (\<exists>i < 6. push_bit i 1 AND tilesMask a \<noteq> 0 \<and>
        slot (fst (fold (face a) [0..<6] (d, False, False))) (actorObject a) i \<noteq> None)"
proof
  assume "fst (snd (fold (face a) [0..<6] (d, False, False)))"
  from faces_any_tile [where st = "(d, False, False)" and js = "[0..<6]" and a = a] assms this
  show "\<exists>i < 6. push_bit i 1 AND tilesMask a \<noteq> 0 \<and>
        slot (fst (fold (face a) [0..<6] (d, False, False))) (actorObject a) i \<noteq> None"
    by auto
next
  assume "\<exists>i < 6. push_bit i 1 AND tilesMask a \<noteq> 0 \<and>
        slot (fst (fold (face a) [0..<6] (d, False, False))) (actorObject a) i \<noteq> None"
  then obtain i where i: "i < 6" "push_bit i 1 AND tilesMask a \<noteq> 0"
    "slot (fst (fold (face a) [0..<6] (d, False, False))) (actorObject a) i \<noteq> None"
    by auto
  from faces_tile_any [where st = "(d, False, False)" and js = "[0..<6]" and a = a and i = i]
    assms i
  show "fst (snd (fold (face a) [0..<6] (d, False, False)))" by simp
qed

section \<open>What a frame keeps\<close>

lemma RasterizeActor_CurrentFrame: "CurrentFrame (RasterizeActor a d) = CurrentFrame d"
  using arg_cong [OF RasterizeActor_untouched, of CurrentFrame a d] by (simp add: untouched_fields)

lemma RasterizeActor_shape: "shape (Objects d) \<Longrightarrow> shape (Objects (RasterizeActor a d))"
proof -
  assume sh: "shape (Objects d)"
  obtain d' any dirty where f: "fold (face a) [0..<6] (d, False, False) = (d', any, dirty)"
    by (cases "fold (face a) [0..<6] (d, False, False)") auto
  have sh': "shape (Objects d')"
    using faces_shape [where st = "(d, False, False)" and js = "[0..<6]" and a = a] sh
    by (simp add: f)
  show ?thesis
  proof (cases any)
    case False
    with f sh' show ?thesis by (simp add: RasterizeActor_no_tile)
  next
    case True
    from faces_any_entry [of a "[0..<6]" "(d, False, False)"] f True
    obtain ob where ob: "TryGet (actorObject a) (Objects d') = Some ob" by auto
    from f True have f': "fold (face a) [0..<6] (d, False, False) = (d', True, dirty)" by simp
    show ?thesis
      unfolding RasterizeActor_any_tile [OF f' ob] using sh' by (simp add: shape_modify)
  qed
qed

lemma RasterizeActor_marked:
  assumes sh: "shape (Objects d)" and inv: "marked_have_tiles D d" and new: "actorObject a \<notin> D"
  shows "marked_have_tiles (insert (actorObject a) D) (RasterizeActor a d)"
  unfolding marked_have_tiles_def
proof (intro allI impI)
  fix k ob
  assume t: "TryGet k (Objects (RasterizeActor a d)) = Some ob"
    and u: "LastFrameUsed ob = CurrentFrame (RasterizeActor a d)"
  from u have u': "LastFrameUsed ob = CurrentFrame d" by (simp add: RasterizeActor_CurrentFrame)
  obtain d' any dirty where f: "fold (face a) [0..<6] (d, False, False) = (d', any, dirty)"
    by (cases "fold (face a) [0..<6] (d, False, False)") auto
  show "k \<in> insert (actorObject a) D \<and> (\<exists>i < 6. Tiles ob ! i \<noteq> None)"
  proof (cases "k = actorObject a")
    case False
    from t have "TryGet k (Objects d) = Some ob" by (simp add: RasterizeActor_other_entry [OF False])
    with inv u' show ?thesis by (auto simp: marked_have_tiles_def)
  next
    case k: True
    show ?thesis
    proof (cases any)
      case False
      with f have R: "RasterizeActor a d = d'" by (simp add: RasterizeActor_no_tile)
      show ?thesis
      proof (cases "TryGet k (Objects d)")
        case None
        from faces_entry_created [where st = "(d, False, False)" and js = "[0..<6]" and a = a
            and k' = k and ob = ob] None t R f False
        show ?thesis by simp
      next
        case (Some ob0)
        from faces_entry_stamps [where st = "(d, False, False)" and js = "[0..<6]" and a = a
            and k' = k and ob = ob0] Some t R f
        have "stamps ob = stamps ob0" by simp
        then have "LastFrameUsed ob0 = CurrentFrame d" using u' by (simp add: stamps_def)
        with inv Some have "k \<in> D" by (auto simp: marked_have_tiles_def)
        with new k show ?thesis by simp
      qed
    next
      case True
      with f have f': "fold (face a) [0..<6] (d, False, False) = (d', True, dirty)" by simp
      from faces_any_entry [of a "[0..<6]" "(d, False, False)"] f'
      obtain ob' where ob': "TryGet (actorObject a) (Objects d') = Some ob'" by auto
      from faces6_any_iff [OF sh, of a] f' obtain i where i: "i < 6"
        "slot d' (actorObject a) i \<noteq> None"
        by auto
      from i(2) ob' have ti: "Tiles ob' ! i \<noteq> None" by (simp add: slot_def)
      from t have "Tiles ob = Tiles ob'"
        unfolding RasterizeActor_any_tile [OF f' ob'] by (auto simp: k TryGet_modify ob')
      with ti i(1) k show ?thesis by auto
    qed
  qed
qed

lemma fold_RasterizeActor_marked:
  assumes "shape (Objects d)" and "marked_have_tiles D d"
    and "distinct (map actorObject as)" and "actorObject ` set as \<inter> D = {}"
  shows "marked_have_tiles (D \<union> actorObject ` set as) (fold RasterizeActor as d) \<and>
     shape (Objects (fold RasterizeActor as d)) \<and>
     CurrentFrame (fold RasterizeActor as d) = CurrentFrame d"
  using assms
proof (induction as arbitrary: d D)
  case Nil
  then show ?case by simp
next
  case (Cons a as)
  from Cons.prems have new: "actorObject a \<notin> D" by auto
  have m: "marked_have_tiles (insert (actorObject a) D) (RasterizeActor a d)"
    by (rule RasterizeActor_marked [OF Cons.prems(1,2) new])
  have sh: "shape (Objects (RasterizeActor a d))"
    by (rule RasterizeActor_shape [OF Cons.prems(1)])
  from Cons.prems have d: "distinct (map actorObject as)"
    "actorObject ` set as \<inter> insert (actorObject a) D = {}"
    by auto
  have e: "insert (actorObject a) D \<union> actorObject ` set as = D \<union> actorObject ` set (a # as)"
    by auto
  from Cons.IH [OF sh m d] show ?case
    unfolding e by (simp add: RasterizeActor_CurrentFrame)
qed

lemma CullObjects_stamp:
  "CustomBuffer_LastFrameUsed (snd (CullObjects pf e F d)) = CustomBuffer_LastFrameUsed d"
  by (simp add: CullObjects_def Let_def ReadCounter_def split: init_result.splits)

lemma prepared_Objects: "Objects (prepared pf e d) = Objects (snd (initialized pf e d))"
  by (simp add: prepared_def NewAtlasTiles_def)

lemma initialized_shape: "shape (Objects d) \<Longrightarrow> shape (Objects (snd (initialized pf e d)))"
  using initialized_cases [of pf e d] by (auto simp: shape_def)

lemma occupied_Nil: "Objects d = [] \<Longrightarrow> occupied d"
  by (simp add: occupied_def TryGet_def)

lemma drawn_marked:
  assumes sh: "shape (Objects d)" and oc: "occupied d"
    and ne: "CustomBuffer_LastFrameUsed d \<noteq> FrameCount e"
    and di: "distinct (map actorObject (draws e))"
  shows "marked_have_tiles (actorObject ` set (draws e)) (drawn pf e d)"
    and "shape (Objects (drawn pf e d))" and "CurrentFrame (drawn pf e d) = FrameCount e"
proof -
  define s where "s = (prepared pf e d)\<lparr>dirtyObjectsBuffer := [], CurrentFrame := FrameCount e\<rparr>"
  have so: "Objects s = Objects (snd (initialized pf e d))" by (simp add: s_def prepared_Objects)
  have sh_s: "shape (Objects s)" unfolding so by (rule initialized_shape [OF sh])
  have m: "marked_have_tiles {} s"
    unfolding marked_have_tiles_def
  proof (intro allI impI)
    fix k ob
    assume t: "TryGet k (Objects s) = Some ob" and u: "LastFrameUsed ob = CurrentFrame s"
    from initialized_cases [of pf e d] t have "TryGet k (Objects d) = Some ob"
      by (auto simp: so TryGet_def)
    with oc have "LastFrameUsed ob = CustomBuffer_LastFrameUsed d" by (simp add: occupied_def)
    with u ne show "k \<in> {} \<and> (\<exists>i < 6. Tiles ob ! i \<noteq> None)" by (simp add: s_def)
  qed
  have dr: "drawn pf e d = fold RasterizeActor (draws e) s"
    by (simp add: drawn_def AddObjects_def s_def)
  from fold_RasterizeActor_marked [OF sh_s m di] 
  have "marked_have_tiles ({} \<union> actorObject ` set (draws e)) (drawn pf e d) \<and>
     shape (Objects (drawn pf e d)) \<and> CurrentFrame (drawn pf e d) = CurrentFrame s"
    by (simp add: dr)
  then show "marked_have_tiles (actorObject ` set (draws e)) (drawn pf e d)"
    and "shape (Objects (drawn pf e d))" and "CurrentFrame (drawn pf e d) = FrameCount e"
    by (simp_all add: s_def)
qed

lemma swept_occupied:
  assumes sh: "shape (Objects d)" and oc: "occupied d"
    and ne: "CustomBuffer_LastFrameUsed d \<noteq> FrameCount e"
    and di: "distinct (map actorObject (draws e))"
  shows "occupied (swept pf e d)" and "shape (Objects (swept pf e d))"
proof -
  note D = drawn_marked [OF assms, of pf]
  have o: "Objects (swept pf e d) =
      filter (\<lambda>(k, ob). LastFrameUsed ob = FrameCount e) (Objects (drawn pf e d))"
    by (simp add: swept_def RemoveUnusedObjects_fields)
  show "shape (Objects (swept pf e d))" unfolding o by (rule shape_filter [OF D(2)])
  from D(2) have dk: "distinct (map fst (Objects (drawn pf e d)))" by (simp add: shape_def)
  show "occupied (swept pf e d)"
    unfolding occupied_def
  proof (intro allI impI)
    fix k ob
    assume "TryGet k (Objects (swept pf e d)) = Some ob"
    then have t: "TryGet k (Objects (drawn pf e d)) = Some ob" and u: "LastFrameUsed ob = FrameCount e"
      unfolding o TryGet_filter [OF dk] by (auto split: option.splits if_splits)
    from D(1) t u D(3) have "\<exists>i < 6. Tiles ob ! i \<noteq> None" by (simp add: marked_have_tiles_def)
    with u show "LastFrameUsed ob = CustomBuffer_LastFrameUsed (swept pf e d) \<and>
        (\<exists>i < 6. Tiles ob ! i \<noteq> None)"
      by (simp add: swept_stamp)
  qed
qed

lemma Render_occupied:
  assumes sh: "shape (Objects d)" and oc: "occupied d"
    and di: "distinct (map actorObject (draws e))"
  shows "occupied (snd (Render pf e d)) \<and> shape (Objects (snd (Render pf e d)))"
proof (cases "proceeds pf e d")
  case True
  then have ne: "CustomBuffer_LastFrameUsed d \<noteq> FrameCount e" by (simp add: proceeds_def)
  note S = swept_occupied [OF sh oc ne di, of pf]
  have "occupied (snd (Render pf e d))"
    using S(1) unfolding Render_proceeds [OF True] occupied_def
    by (simp add: CullObjects_Objects CullObjects_stamp)
  moreover have "shape (Objects (snd (Render pf e d)))"
    using S(2) unfolding Render_proceeds [OF True] by (simp add: CullObjects_Objects)
  ultimately show ?thesis ..
next
  case False
  from Render_not_proceeds [OF False] show ?thesis
  proof
    assume "snd (Render pf e d) = d"
    with sh oc show ?thesis by simp
  next
    assume "CustomBuffer_LastFrameUsed d \<noteq> FrameCount e \<and> fst (initialized pf e d) \<and>
      snd (Render pf e d) = snd (initialized pf e d)"
    with initialized_failed [of pf e d] show ?thesis
      by (simp add: occupied_Nil shape_def)
  qed
qed

lemma frames_occupied:
  assumes "shape (Objects d)" and "occupied d"
    and "\<forall>e \<in> set es. distinct (map actorObject (draws e))"
  shows "occupied (frames pf es d) \<and> shape (Objects (frames pf es d))"
  using assms
proof (induction es arbitrary: d)
  case Nil
  then show ?case by simp
next
  case (Cons e es)
  from Render_occupied [OF Cons.prems(1,2), of e pf] Cons.prems(3)
  have "occupied (snd (Render pf e d))" "shape (Objects (snd (Render pf e d)))" by simp_all
  from Cons.IH [OF this(2,1)] Cons.prems(3) show ?case by simp
qed

lemma face_creates:
  assumes "TryGet (actorObject a) (Objects d) = None"
  shows "TryGet (actorObject a) (Objects (fst (face a i (d, anyTile, dirty)))) \<noteq> None \<longleftrightarrow>
     push_bit i 1 AND tilesMask a \<noteq> 0 \<and> 4 \<le> faceResolution a i \<and>
     fst (Insert (unat (tileResolution (faceResolution a i)))
            (unat (tileResolution (faceResolution a i))) (AtlasTiles d)) \<noteq> None"
proof -
  from assms have s: "slot d (actorObject a) i = None" by (simp add: slot_def)
  then have k: "\<not> keeps a i d" by (simp add: keeps_def)
  have at: "attempt a i d = Insert (unat (tileResolution (faceResolution a i)))
            (unat (tileResolution (faceResolution a i))) (AtlasTiles d)"
    by (simp add: attempt_def s)
  have w: "written a i d =
      (if push_bit i 1 AND tilesMask a = 0 \<or> faceResolution a i < 4 then None
       else Some (fst (attempt a i d)))"
    by (simp add: written_def s k)
  show ?thesis
    unfolding face_Objects w at [symmetric]
    by (cases "fst (attempt a i d)")
      (auto simp: TryGet_modify TryGet_At assms not_less)
qed

lemma RemoveUnusedObjects_removed:
  assumes wf: "cache_wf d" and en: "TryGet k (Objects d) = Some ob"
    and un: "LastFrameUsed ob \<noteq> F"
  shows "TryGet k (Objects (RemoveUnusedObjects F d)) = None"
    and "\<And>i t. i < 6 \<Longrightarrow> Tiles ob ! i = Some t \<Longrightarrow>
           t < length (AtlasTiles d) \<and> IsUsed (AtlasTiles d ! t) \<and>
           AtlasTiles (RemoveUnusedObjects F d) ! t = (AtlasTiles d ! t)\<lparr>IsUsed := False\<rparr>"
proof -
  note w = cache_wfD [OF wf]
  from w(1) have dk: "distinct (map fst (Objects d))" by (simp add: shape_def)
  show "TryGet k (Objects (RemoveUnusedObjects F d)) = None"
    unfolding RemoveUnusedObjects_fields TryGet_filter [OF dk] using en un by simp
  fix i t
  assume i: "i < 6" and ti: "Tiles ob ! i = Some t"
  from en ti have s: "slot d k i = Some t" by (simp add: slot_def)
  from w(2,3) [OF i s] have tl: "t < length (AtlasTiles d)" and tu: "IsUsed (AtlasTiles d ! t)"
    by simp_all
  from shape_length [OF w(1) en] i ti have "Some t \<in> set (Tiles ob)"
    by (metis nth_mem)
  moreover from en have "(k, ob) \<in> set (Objects d)" by (simp add: shape_TryGet [OF w(1)])
  ultimately have "t \<in> dead_tiles F (Objects d)" using un by (auto simp: dead_tiles_def)
  with remove_unused_nth [OF tl, of F "Objects d"]
  have "AtlasTiles (RemoveUnusedObjects F d) ! t = (AtlasTiles d ! t)\<lparr>IsUsed := False\<rparr>"
    by (simp add: RemoveUnusedObjects_fields)
  with tl tu show "t < length (AtlasTiles d) \<and> IsUsed (AtlasTiles d ! t) \<and>
           AtlasTiles (RemoveUnusedObjects F d) ! t = (AtlasTiles d ! t)\<lparr>IsUsed := False\<rparr>"
    by simp
qed

lemma RemoveUnusedObjects_kept:
  assumes wf: "cache_wf d" and en: "TryGet k (Objects d) = Some ob"
    and us: "LastFrameUsed ob = F"
  shows "TryGet k (Objects (RemoveUnusedObjects F d)) = Some ob"
    and "\<And>i t. i < 6 \<Longrightarrow> Tiles ob ! i = Some t \<Longrightarrow>
           AtlasTiles (RemoveUnusedObjects F d) ! t = AtlasTiles d ! t"
proof -
  note w = cache_wfD [OF wf]
  from w(1) have dk: "distinct (map fst (Objects d))" by (simp add: shape_def)
  show "TryGet k (Objects (RemoveUnusedObjects F d)) = Some ob"
    unfolding RemoveUnusedObjects_fields TryGet_filter [OF dk] using en us by simp
  fix i t
  assume i: "i < 6" and ti: "Tiles ob ! i = Some t"
  from en ti have s: "slot d k i = Some t" by (simp add: slot_def)
  from w(2) [OF i s] have tl: "t < length (AtlasTiles d)" .
  have "t \<notin> dead_tiles F (Objects d)"
  proof
    assume "t \<in> dead_tiles F (Objects d)"
    from dead_tile_owner [OF w(1) this] obtain k' ob' j where
      o: "TryGet k' (Objects d) = Some ob'" "LastFrameUsed ob' \<noteq> F" "j < 6" "slot d k' j = Some t"
      by blast
    from w(4) [OF i o(3) s o(4)] have "k = k'" by simp
    with o(1,2) en us show False by simp
  qed
  with remove_unused_nth [OF tl, of F "Objects d"]
  show "AtlasTiles (RemoveUnusedObjects F d) ! t = AtlasTiles d ! t"
    by (simp add: RemoveUnusedObjects_fields)
qed

lemma Insert_into_free:
  assumes "t < length p" and "\<not> IsUsed (p ! t)" and "w \<le> Width (p ! t)" and "h \<le> Height (p ! t)"
  shows "fits w h (p ! t)" and "fst (Insert w h p) \<noteq> None"
proof -
  from assms(2-4) show f: "fits w h (p ! t)" by (simp add: fits_def)
  from assms(1) have "p ! t \<in> set p" by simp
  from Insert_succeeds [OF this f] show "fst (Insert w h p) \<noteq> None" .
qed

lemma frames_drawn_cache_wf: "Objects d0 = [] \<Longrightarrow> cache_wf (drawn pf e (frames pf es d0))"
  by (intro drawn_cache_wf frames_cache_wf cache_wf_Objects_Nil)

lemma face_held:
  assumes h: "tile_held k i u T d" and i: "i < 6" and j: "j < 6"
    and b: "actorObject a = k \<longrightarrow> in_band i T a"
  shows "tile_held k i u T (fst (face a j (d, x, y)))"
    and "actorObject a = k \<Longrightarrow> j = i \<Longrightarrow> fst (snd (face a j (d, x, y)))"
proof -
  from h have wf: "cache_wf d" and s: "slot d k i = Some u" and t: "AtlasTiles d ! u = T"
    by (simp_all add: tile_held_def)
  note w = cache_wfD [OF wf]
  have keep: "face a j (d, x, y) = (d, True, y)" if "actorObject a = k" "j = i"
  proof -
    from b that have m: "push_bit i 1 AND tilesMask a \<noteq> 0" "\<not> faceResolution a i < 4"
      and c: "\<bar>uint (tileResolution (faceResolution a i)) - int (Width T)\<bar> < uint tileRefitResolutionStep"
      by (simp_all add: in_band_def not_less)
    from c s t that have "keeps a i d" by (simp add: keeps_def)
    from face_keep [OF m this] that show ?thesis by simp
  qed
  show "fst (snd (face a j (d, x, y)))" if "actorObject a = k" "j = i"
    using keep [OF that] by simp
  show "tile_held k i u T (fst (face a j (d, x, y)))"
  proof (cases "actorObject a = k \<and> j = i")
    case True
    with keep h show ?thesis by simp
  next
    case False
    then have ne: "(k, i) \<noteq> (actorObject a, j)" by auto
    note st = face_effect [OF w(1) j, of a x y]
    have "cache_wf (fst (face a j (d, x, y)))" by (rule cache_wf_slot_step [OF wf j st])
    moreover have "slot (fst (face a j (d, x, y))) k i = Some u"
      using slot_step_others [OF st i ne] s by simp
    moreover have "AtlasTiles (fst (face a j (d, x, y))) ! u = T"
      using slot_step_other_tile(2) [OF wf j st i ne s] t by simp
    ultimately show ?thesis by (simp add: tile_held_def)
  qed
qed

lemma faces_held:
  assumes "tile_held k i u T (fst st)" and "i < 6" and "\<forall>j \<in> set js. j < 6"
    and "actorObject a = k \<longrightarrow> in_band i T a"
  shows "tile_held k i u T (fst (fold (face a) js st)) \<and>
     (actorObject a = k \<and> i \<in> set js \<longrightarrow> fst (snd (fold (face a) js st)))"
  using assms
proof (induction js arbitrary: st)
  case Nil
  then show ?case by simp
next
  case (Cons j js)
  obtain d x y where st: "st = (d, x, y)" by (cases st) auto
  from Cons.prems have h: "tile_held k i u T d" and j: "j < 6" and js: "\<forall>j \<in> set js. j < 6"
    by (simp_all add: st)
  note F = face_held [OF h Cons.prems(2) j Cons.prems(4), of x y]
  from Cons.IH [of "face a j st"] F(1) Cons.prems(2,4) js
  have IH: "tile_held k i u T (fst (fold (face a) js (face a j st))) \<and>
     (actorObject a = k \<and> i \<in> set js \<longrightarrow> fst (snd (fold (face a) js (face a j st))))"
    by (simp add: st)
  have "fst (snd (fold (face a) js (face a j st)))" if "actorObject a = k" "j = i"
    using faces_anyTile_mono [of "face a j st" a js] F(2) [OF that] by (simp add: st)
  with IH show ?case by auto
qed

lemma RasterizeActor_held:
  assumes h: "tile_held k i u T d" and i: "i < 6"
    and b: "actorObject a = k \<longrightarrow> in_band i T a"
  shows "tile_held k i u T (RasterizeActor a d)"
    and "actorObject a = k \<or> used_in k d \<Longrightarrow> used_in k (RasterizeActor a d)"
proof -
  obtain d' any dirty where f: "fold (face a) [0..<6] (d, False, False) = (d', any, dirty)"
    by (cases "fold (face a) [0..<6] (d, False, False)") auto
  from faces_held [where st = "(d, False, False)" and js = "[0..<6]", OF _ i _ b] h i
  have h': "tile_held k i u T d'" and any: "actorObject a = k \<longrightarrow> any"
    by (simp_all add: f)
  have cf: "CurrentFrame d' = CurrentFrame d"
    using faces_CurrentFrame [of a "[0..<6]" "(d, False, False)"] f by simp
  have R: "tile_held k i u T (RasterizeActor a d) \<and>
      (actorObject a = k \<or> used_in k d \<longrightarrow> used_in k (RasterizeActor a d))"
  proof (cases any)
    case False
    with f have r: "RasterizeActor a d = d'" by (simp add: RasterizeActor_no_tile)
    from False any have ne: "k \<noteq> actorObject a" by auto
    have "TryGet k (Objects d') = TryGet k (Objects d)"
      using RasterizeActor_other_entry [OF ne, of d] by (simp add: r)
    then have "used_in k d' = used_in k d" unfolding used_in_def cf by simp
    with h' ne show ?thesis by (auto simp: r)
  next
    case True
    with f have f': "fold (face a) [0..<6] (d, False, False) = (d', True, dirty)" by simp
    from faces_any_entry [of a "[0..<6]" "(d, False, False)"] f'
    obtain ob where ob: "TryGet (actorObject a) (Objects d') = Some ob" by auto
    note E = RasterizeActor_any_tile [OF f' ob]
    from h' have wf': "cache_wf d'" and s': "slot d' k i = Some u" and t': "AtlasTiles d' ! u = T"
      by (simp_all add: tile_held_def)
    have "cache_wf (RasterizeActor a d)"
      using h by (simp add: tile_held_def RasterizeActor_cache_wf)
    moreover have "slot (RasterizeActor a d) k i = slot d' k i"
    proof -
      define G where "G = (\<lambda>ob' :: GlobalSurfaceAtlasObject. ob'\<lparr>Actor := actor a, LastFrameUsed := CurrentFrame d',
          LastFrameDirty := (if dirty \<or> redraw_due a (CurrentFrame d') ob
                             then CurrentFrame d' else LastFrameDirty ob')\<rparr>)"
      have o: "Objects (RasterizeActor a d) = modify (actorObject a) G (Objects d')"
        by (simp add: E G_def)
      show ?thesis by (rule slot_modify_stamps [OF o]) (simp add: G_def)
    qed
    moreover have "AtlasTiles (RasterizeActor a d) = AtlasTiles d'" by (simp add: E)
    ultimately have 1: "tile_held k i u T (RasterizeActor a d)"
      using s' t' by (simp add: tile_held_def)
    have 2: "used_in k (RasterizeActor a d)" if "actorObject a = k \<or> used_in k d"
    proof (cases "actorObject a = k")
      case True
      with ob show ?thesis
        unfolding used_in_def RasterizeActor_CurrentFrame
        by (simp add: E TryGet_modify cf)
    next
      case False
      with that have u: "used_in k d" by simp
      from False have "k \<noteq> actorObject a" by auto
      from RasterizeActor_other_entry [OF this, of d] u show ?thesis
        unfolding used_in_def RasterizeActor_CurrentFrame by simp
    qed
    from 1 2 show ?thesis by blast
  qed
  from R show "tile_held k i u T (RasterizeActor a d)" by simp
  from R show "actorObject a = k \<or> used_in k d \<Longrightarrow> used_in k (RasterizeActor a d)" by simp
qed

lemma fold_RasterizeActor_held:
  assumes "tile_held k i u T d" and "i < 6"
    and "\<forall>a \<in> set as. actorObject a = k \<longrightarrow> in_band i T a"
  shows "tile_held k i u T (fold RasterizeActor as d) \<and>
     ((\<exists>a \<in> set as. actorObject a = k) \<or> used_in k d \<longrightarrow> used_in k (fold RasterizeActor as d))"
  using assms
proof (induction as arbitrary: d)
  case Nil
  then show ?case by simp
next
  case (Cons a as)
  from Cons.prems(3) have b: "actorObject a = k \<longrightarrow> in_band i T a"
    and bs: "\<forall>a \<in> set as. actorObject a = k \<longrightarrow> in_band i T a"
    by simp_all
  note R = RasterizeActor_held [OF Cons.prems(1,2) b]
  from Cons.IH [OF R(1) Cons.prems(2) bs] R(2) show ?case by auto
qed

lemma fold_RasterizeActor_CurrentFrame:
  "CurrentFrame (fold RasterizeActor as d) = CurrentFrame d"
  using arg_cong [OF fold_RasterizeActor_untouched, of CurrentFrame as d]
  by (simp add: untouched_fields)

lemma swept_held:
  assumes wf: "cache_wf d" and i: "i < 6" and s: "slot (prepared pf e d) k i = Some u"
    and dr: "\<exists>a \<in> set (draws e). actorObject a = k"
    and band: "\<forall>a \<in> set (draws e). actorObject a = k \<longrightarrow>
       in_band i (AtlasTiles (prepared pf e d) ! u) a"
  shows "slot (swept pf e d) k i = Some u"
    and "AtlasTiles (swept pf e d) ! u = AtlasTiles (prepared pf e d) ! u"
proof -
  define T where "T = AtlasTiles (prepared pf e d) ! u"
  define s0 where "s0 = (prepared pf e d)\<lparr>dirtyObjectsBuffer := [], CurrentFrame := FrameCount e\<rparr>"
  have "cache_wf s0 = cache_wf (prepared pf e d)"
    by (rule cache_wf_fields) (simp_all add: s0_def)
  then have wf0: "cache_wf s0" using prepared_cache_wf [OF wf, of pf e] by simp
  have sl0: "slot s0 k i = Some u"
    using slot_Objects_cong [of s0 "prepared pf e d" k i] s by (simp add: s0_def)
  have h0: "tile_held k i u T s0" using wf0 sl0 by (simp add: tile_held_def T_def s0_def)
  have dr_eq: "drawn pf e d = fold RasterizeActor (draws e) s0"
    by (simp add: drawn_def AddObjects_def s0_def)
  from band have band': "\<forall>a \<in> set (draws e). actorObject a = k \<longrightarrow> in_band i T a"
    by (simp add: T_def)
  from fold_RasterizeActor_held [OF h0 i band'] dr
  have hd: "tile_held k i u T (drawn pf e d)" and ud: "used_in k (drawn pf e d)"
    by (simp_all add: dr_eq)
  have cf: "CurrentFrame (drawn pf e d) = FrameCount e"
    by (simp add: dr_eq fold_RasterizeActor_CurrentFrame s0_def)
  from ud obtain ob where ob: "TryGet k (Objects (drawn pf e d)) = Some ob"
    and us: "LastFrameUsed ob = FrameCount e"
    by (auto simp: used_in_def cf split: option.splits)
  from hd have wfd: "cache_wf (drawn pf e d)" and sd: "slot (drawn pf e d) k i = Some u"
    and td: "AtlasTiles (drawn pf e d) ! u = T"
    by (simp_all add: tile_held_def)
  from sd ob have ti: "Tiles ob ! i = Some u" by (simp add: slot_def)
  note K = RemoveUnusedObjects_kept [OF wfd ob us]
  from K(1) ti show "slot (swept pf e d) k i = Some u" by (simp add: swept_def slot_def)
  from K(2) [OF i ti] td show "AtlasTiles (swept pf e d) ! u = AtlasTiles (prepared pf e d) ! u"
    by (simp add: swept_def T_def)
qed

lemma face_refit:
  assumes m: "push_bit i 1 AND tilesMask a \<noteq> 0" and r: "4 \<le> faceResolution a i"
    and s: "slot d (actorObject a) i = Some t"
    and nb: "\<not> \<bar>uint (tileResolution (faceResolution a i)) - int (Width (AtlasTiles d ! t))\<bar> < 32"
  shows "face a i (d, anyTile, dirty) =
     (case fst (Insert (unat (tileResolution (faceResolution a i)))
                  (unat (tileResolution (faceResolution a i))) (Free t (AtlasTiles d))) of
        Some t' \<Rightarrow>
          (set_tile (actorObject a) i (Some t')
             (d\<lparr>AtlasTiles := snd (Insert (unat (tileResolution (faceResolution a i)))
                  (unat (tileResolution (faceResolution a i))) (Free t (AtlasTiles d)))\<rparr>),
           True, True)
      | None \<Rightarrow>
          ((set_tile (actorObject a) i None
             (d\<lparr>AtlasTiles := snd (Insert (unat (tileResolution (faceResolution a i)))
                  (unat (tileResolution (faceResolution a i))) (Free t (AtlasTiles d)))\<rparr>))
             \<lparr>LastFrameAtlasInsertFail := CurrentFrame d\<rparr>,
           anyTile, dirty))"
proof -
  from r have r': "\<not> faceResolution a i < 4" by (simp add: not_less)
  from nb s have k: "\<not> keeps a i d" by (simp add: keeps_def tileRefitResolutionStep_def)
  from s have e: "TryGet (actorObject a) (Objects d) \<noteq> None" by (rule slot_Some_TryGet)
  then have at: "At (actorObject a) (Objects d) = Objects d" by (simp add: At_def TryGet_def)
  have rec: "d\<lparr>AtlasTiles := p, Objects := Objects d\<rparr> = d\<lparr>AtlasTiles := p\<rparr>" for p
    by simp
  show ?thesis
    unfolding face_pack [OF m r' k] Let_def s option.case at rec
    using e by (simp split: option.splits)
qed
section \<open>Packing validity\<close>

lemma face_Resolution [simp]: "Resolution (fst (face a i (d, x, y))) = Resolution d"
  by (simp add: face_def Let_def set_tile_def split: option.splits)

lemma face_all_tiles_ok:
  "all_tiles_ok R (AtlasTiles d) \<Longrightarrow> all_tiles_ok R (AtlasTiles (fst (face a i (d, x, y))))"
  by (simp add: face_def Let_def set_tile_def all_tiles_ok_Insert all_tiles_ok_Free
      split: option.splits)

lemma faces_all_tiles_ok:
  "all_tiles_ok R (AtlasTiles (fst st)) \<Longrightarrow> all_tiles_ok R (AtlasTiles (fst (fold (face a) is st)))"
proof (induction "is" arbitrary: st)
  case Nil
  then show ?case by simp
next
  case (Cons i "is")
  obtain d x y where st: "st = (d, x, y)" by (cases st) auto
  from Cons.prems have "all_tiles_ok R (AtlasTiles (fst (face a i st)))"
    by (simp add: st face_all_tiles_ok)
  from Cons.IH [OF this] show ?case by simp
qed

lemma faces_Resolution: "Resolution (fst (fold (face a) is st)) = Resolution (fst st)"
proof (induction "is" arbitrary: st)
  case Nil
  then show ?case by simp
next
  case (Cons i "is")
  obtain d x y where st: "st = (d, x, y)" by (cases st) auto
  show ?case by (simp add: Cons.IH) (simp add: st)
qed

lemma RasterizeActor_packer:
  "AtlasTiles (RasterizeActor a d) = AtlasTiles (fst (fold (face a) [0..<6] (d, False, False)))"
proof -
  obtain d' x y where f: "fold (face a) [0..<6] (d, False, False) = (d', x, y)"
    by (cases "fold (face a) [0..<6] (d, False, False)") auto
  show ?thesis
    by (simp add: RasterizeActor_def f Let_def split: option.splits)
qed

lemma RasterizeActor_Resolution [simp]: "Resolution (RasterizeActor a d) = Resolution d"
proof -
  obtain d' x y where f: "fold (face a) [0..<6] (d, False, False) = (d', x, y)"
    by (cases "fold (face a) [0..<6] (d, False, False)") auto
  with faces_Resolution [of a "[0..<6]" "(d, False, False)"] have "Resolution d' = Resolution d"
    by simp
  then show ?thesis
    by (simp add: RasterizeActor_def f Let_def split: option.splits)
qed

lemma RasterizeActor_atlas_ok: "atlas_ok d \<Longrightarrow> atlas_ok (RasterizeActor a d)"
  using faces_all_tiles_ok [of _ "(d, False, False)" a "[0..<6]"]
  by (simp add: atlas_ok_def RasterizeActor_packer)

lemma fold_RasterizeActor_atlas_ok: "atlas_ok d \<Longrightarrow> atlas_ok (fold RasterizeActor as d)"
  by (induction as arbitrary: d) (simp_all add: RasterizeActor_atlas_ok)

lemma AddObjects_atlas_ok: "atlas_ok d \<Longrightarrow> atlas_ok (AddObjects e F d)"
proof -
  assume "atlas_ok d"
  then have "atlas_ok (d\<lparr>dirtyObjectsBuffer := [], CurrentFrame := F\<rparr>)"
    by (simp add: atlas_ok_def)
  then show ?thesis unfolding AddObjects_def by (rule fold_RasterizeActor_atlas_ok)
qed

lemma free_tiles_all_tiles_ok: "all_tiles_ok R p \<Longrightarrow> all_tiles_ok R (free_tiles ts p)"
  unfolding free_tiles_def
  by (induction ts arbitrary: p) (simp_all add: all_tiles_ok_Free split: option.splits)

lemma remove_unused_all_tiles_ok:
  "all_tiles_ok R p \<Longrightarrow> all_tiles_ok R (snd (remove_unused F es p))"
proof (induction F es p rule: remove_unused.induct)
  case (1 F p)
  then show ?case by simp
next
  case (2 F k ob es p)
  show ?case
  proof (cases "LastFrameUsed ob \<noteq> F")
    case True
    with 2 show ?thesis by (simp add: free_tiles_all_tiles_ok)
  next
    case False
    with 2 show ?thesis by (cases "remove_unused F es p") simp
  qed
qed

lemma RemoveUnusedObjects_atlas_ok: "atlas_ok d \<Longrightarrow> atlas_ok (RemoveUnusedObjects F d)"
proof -
  assume ok: "atlas_ok d"
  obtain es p where r: "remove_unused F (Objects d) (AtlasTiles d) = (es, p)"
    by (cases "remove_unused F (Objects d) (AtlasTiles d)") auto
  from ok remove_unused_all_tiles_ok [of "nat (Resolution d mod 65536)" "AtlasTiles d" F "Objects d"]
  show ?thesis by (simp add: atlas_ok_def RemoveUnusedObjects_def r)
qed

lemma ReadCounter_atlas [simp]:
  "AtlasTiles (snd (snd (ReadCounter pf e F d))) = AtlasTiles d"
  "Resolution (snd (snd (ReadCounter pf e F d))) = Resolution d"
  by (simp_all add: ReadCounter_def Let_def)

lemma CullObjects_atlas [simp]:
  "AtlasTiles (snd (CullObjects pf e F d)) = AtlasTiles d"
  "Resolution (snd (CullObjects pf e F d)) = Resolution d"
  by (simp_all add: CullObjects_def Let_def split: init_result.splits)

lemma CullObjects_atlas_ok: "atlas_ok d \<Longrightarrow> atlas_ok (snd (CullObjects pf e F d))"
  by (simp add: atlas_ok_def)

lemma all_tiles_ok_Nil [simp]: "all_tiles_ok R []"
  by (simp add: all_tiles_ok_def)

lemma InitializeBuffers_atlas_ok:
  "atlas_ok d \<Longrightarrow> atlas_ok (snd (InitializeBuffers e F r d))"
  by (auto simp: InitializeBuffers_def Let_def Clear_def ClearObjects_def atlas_ok_def)

lemma InitializeBuffers_Resolution:
  "\<not> fst (InitializeBuffers e F r d) \<Longrightarrow> Resolution (snd (InitializeBuffers e F r d)) = r"
  by (simp add: InitializeBuffers_def Let_def Clear_def ClearObjects_def split: if_splits)

lemma NewAtlasTiles_atlas_ok:
  "atlas_ok d \<Longrightarrow> Resolution d = r \<Longrightarrow> atlas_ok (NewAtlasTiles r d)"
  by (simp add: NewAtlasTiles_def atlas_ok_def all_tiles_ok_root)

lemma Render_atlas_ok: "atlas_ok d \<Longrightarrow> atlas_ok (snd (Render pf e d))"
proof -
  assume ok: "atlas_ok d"
  define F where "F = FrameCount e"
  define r where "r = Clamp (GlobalSurfaceAtlasResolution e) 256 (GPU_MAX_TEXTURE_SIZE pf)"
  define dl where "dl = d\<lparr>CustomBuffer_LastFrameUsed := F\<rparr>"
  have ok1: "atlas_ok dl" using ok by (simp add: dl_def atlas_ok_def)
  have ok2: "atlas_ok (snd (InitializeBuffers e F r dl))"
    by (rule InitializeBuffers_atlas_ok [OF ok1])
  have ok3: "atlas_ok (snd (CullObjects pf e F (RemoveUnusedObjects F (AddObjects e F
        (NewAtlasTiles r (snd (InitializeBuffers e F r dl)))))))"
    if "\<not> fst (InitializeBuffers e F r dl)"
    by (intro CullObjects_atlas_ok RemoveUnusedObjects_atlas_ok AddObjects_atlas_ok
        NewAtlasTiles_atlas_ok ok2 InitializeBuffers_Resolution that)
  show ?thesis
    using ok ok2 ok3
    by (simp add: Render_def Let_def F_def [symmetric] r_def [symmetric] dl_def [symmetric])
qed

lemma frames_atlas_ok: "atlas_ok d \<Longrightarrow> atlas_ok (frames pf es d)"
  by (induction es arbitrary: d) (simp_all add: Render_atlas_ok)

text \<open>
  Claim C1. Whatever sequence of \<^verbatim>\<open>Insert\<close> and \<^verbatim>\<open>Free\<close> is applied to the packer
  of an atlas, no two live tiles overlap and every live tile lies within the bounds of the
  atlas. The same holds of the atlas after any run of \<^verbatim>\<open>Render\<close> calls, whose
  insertions in \<^verbatim>\<open>RasterizeActor\<close> and whose frees on a skipped face, on a refit and on
  the removal of unused objects are such a sequence.
\<close>

lemma packing_valid_mono: "packing_valid R p \<Longrightarrow> R \<le> R' \<Longrightarrow> packing_valid R' p"
  by (auto simp: packing_valid_def inside_def)

theorem packing_validity:
  "packing_valid R (fold apply_op ops [free_tile 0 0 R R]) \<and>
   (AtlasTiles d = [] \<longrightarrow>
      packing_valid (nat (Resolution (frames pf es d) mod 65536)) (AtlasTiles (frames pf es d)) \<and>
      (0 \<le> Resolution (frames pf es d) \<longrightarrow>
         packing_valid (nat (Resolution (frames pf es d))) (AtlasTiles (frames pf es d))))"
proof
  have "all_tiles_ok R [free_tile 0 0 R R]" by (simp add: all_tiles_ok_root)
  then show "packing_valid R (fold apply_op ops [free_tile 0 0 R R])"
    by (intro all_tiles_ok_valid all_tiles_ok_fold)
next
  show "AtlasTiles d = [] \<longrightarrow>
      packing_valid (nat (Resolution (frames pf es d) mod 65536)) (AtlasTiles (frames pf es d)) \<and>
      (0 \<le> Resolution (frames pf es d) \<longrightarrow>
         packing_valid (nat (Resolution (frames pf es d))) (AtlasTiles (frames pf es d)))"
  proof (intro impI conjI)
    assume "AtlasTiles d = []"
    then have "atlas_ok d" by (simp add: atlas_ok_def)
    then have "atlas_ok (frames pf es d)" by (rule frames_atlas_ok)
    then show v: "packing_valid (nat (Resolution (frames pf es d) mod 65536)) (AtlasTiles (frames pf es d))"
      by (simp add: atlas_ok_def all_tiles_ok_valid)
    assume "0 \<le> Resolution (frames pf es d)"
    then have "nat (Resolution (frames pf es d) mod 65536) \<le> nat (Resolution (frames pf es d))"
      using zmod_le_nonneg_dividend [of "Resolution (frames pf es d)" 65536] by linarith
    with v show "packing_valid (nat (Resolution (frames pf es d))) (AtlasTiles (frames pf es d))"
      by (rule packing_valid_mono)
  qed
qed

theorem packing_validity_witness:
  "AtlasTiles atlas_new = [] \<and>
   packing_valid 128
     (fold apply_op [DoInsert 64 64, DoInsert 64 64, DoFree 0, DoInsert 32 32]
        [free_tile 0 0 128 128]) \<and>
   Resolution (frames platform0 [frame100] atlas_new) = 256 \<and>
   packing_valid (nat (Resolution (frames platform0 [frame100] atlas_new)))
     (AtlasTiles (frames platform0 [frame100] atlas_new)) \<and>
   map (\<lambda>t. (X t, Y t, Width t, Height t)) (live_tiles (AtlasTiles (frames platform0 [frame100] atlas_new))) =
     [(0, 0, 64, 64), (0, 64, 64, 64), (64, 0, 64, 64),
      (0, 128, 64, 64), (128, 0, 64, 64), (64, 64, 64, 64)]"
proof -
  have h: "AtlasTiles atlas_new = []" by (simp add: atlas_new_def)
  have v: "map (\<lambda>t. (X t, Y t, Width t, Height t))
             (live_tiles (AtlasTiles (frames platform0 [frame100] atlas_new))) =
     [(0, 0, 64, 64), (0, 64, 64, 64), (64, 0, 64, 64),
      (0, 128, 64, 64), (128, 0, 64, 64), (64, 64, 64, 64)]"
    by code_simp
  have r: "Resolution (frames platform0 [frame100] atlas_new) = 256" by code_simp
  then have p: "0 \<le> Resolution (frames platform0 [frame100] atlas_new)" by simp
  from packing_validity [of 128 "[DoInsert 64 64, DoInsert 64 64, DoFree 0, DoInsert 32 32]"
      atlas_new platform0 "[frame100]"] h v r p
  show ?thesis by blast
qed

section \<open>Defragmentation\<close>

lemma CullObjects_defrag:
  "LastFrameAtlasDefragmentation (snd (CullObjects pf e F d)) = LastFrameAtlasDefragmentation d"
  by (simp add: CullObjects_def ReadCounter_def Let_def split: init_result.splits)

lemma after_init_defrag:
  "LastFrameAtlasDefragmentation
     (snd (CullObjects pf e F (RemoveUnusedObjects F (AddObjects e F (NewAtlasTiles r d)))))
   = LastFrameAtlasDefragmentation d"
proof -
  have "untouched (RemoveUnusedObjects F (AddObjects e F (NewAtlasTiles r d)))
      = untouched (d\<lparr>CurrentFrame := F\<rparr>)"
    by (simp add: RemoveUnusedObjects_untouched AddObjects_untouched)
      (simp add: NewAtlasTiles_def untouched_def)
  then have "LastFrameAtlasDefragmentation
        (untouched (RemoveUnusedObjects F (AddObjects e F (NewAtlasTiles r d))))
      = LastFrameAtlasDefragmentation (untouched (d\<lparr>CurrentFrame := F\<rparr>))"
    by (rule arg_cong)
  then have "LastFrameAtlasDefragmentation (RemoveUnusedObjects F (AddObjects e F (NewAtlasTiles r d)))
      = LastFrameAtlasDefragmentation (d\<lparr>CurrentFrame := F\<rparr>)"
    by (simp only: untouched_fields)
  then show ?thesis by (simp add: CullObjects_defrag)
qed

lemma nat_window:
  fixes a b c :: nat
  assumes "c + 60 < b" and "b \<le> a" and "a < b + 10"
  shows "a - b < 10 \<and> 60 < a - c"
  using assms by linarith

lemma window_conditions:
  fixes F fail defrag :: uint64
  assumes "unat defrag + 60 < unat fail" and "unat fail \<le> unat F" and "unat F < unat fail + 10"
  shows "F - fail < 10 \<and> F - defrag > 60"
proof -
  have le1: "fail \<le> F" using assms(2) by (simp add: word_le_nat_alt)
  have "unat defrag \<le> unat F" using assms(1,2) by linarith
  then have le2: "defrag \<le> F" by (simp add: word_le_nat_alt)
  have s1: "unat (F - fail) = unat F - unat fail" using le1 by (simp add: unat_sub)
  have s2: "unat (F - defrag) = unat F - unat defrag" using le2 by (simp add: unat_sub)
  have n: "unat F - unat fail < 10 \<and> 60 < unat F - unat defrag"
    by (rule nat_window [OF assms])
  have t: "unat (10 :: uint64) = 10" "unat (60 :: uint64) = 60" by simp_all
  show ?thesis unfolding word_less_nat_alt s1 s2 t by (rule n)
qed

text \<open>
  Claim C2. Let \<^verbatim>\<open>Render\<close> run at a frame with the resolution of the atlas unchanged.
  If an insertion failure was recorded less than 10 frames ago and the last clearing is more
  than 60 frames old (in particular, if the failure was recorded at a frame \<open>F\<close> with no
  clearing in the 60 frames up to \<open>F\<close>, and the call comes less than 10 frames after \<open>F\<close>),
  then the initialisation clears the objects and the packer, the frame goes on from the
  cleared state, and the frame is recorded as that of the last defragmentation.
\<close>

theorem defragmentation_trigger:
  assumes head: "\<not> checkIfSkipPass e" "ScenesCount e \<noteq> 0" "\<not> sdfRenderFails e"
      "CustomBuffer_LastFrameUsed d \<noteq> FrameCount e"
    and same: "Resolution d = Clamp (GlobalSurfaceAtlasResolution e) 256 (GPU_MAX_TEXTURE_SIZE pf)"
    and recent:
      "(FrameCount e - LastFrameAtlasInsertFail d < 10 \<and>
        FrameCount e - LastFrameAtlasDefragmentation d > 60) \<or>
       (unat (LastFrameAtlasDefragmentation d) + 60 < unat (LastFrameAtlasInsertFail d) \<and>
        unat (LastFrameAtlasInsertFail d) \<le> unat (FrameCount e) \<and>
        unat (FrameCount e) < unat (LastFrameAtlasInsertFail d) + 10)"
  shows "InitializeBuffers e (FrameCount e) (Resolution d)
           (d\<lparr>CustomBuffer_LastFrameUsed := FrameCount e\<rparr>)
         = (False, ClearObjects (FrameCount e) (d\<lparr>CustomBuffer_LastFrameUsed := FrameCount e\<rparr>)) \<and>
     Objects (ClearObjects (FrameCount e) (d\<lparr>CustomBuffer_LastFrameUsed := FrameCount e\<rparr>)) = [] \<and>
     AtlasTiles (ClearObjects (FrameCount e) (d\<lparr>CustomBuffer_LastFrameUsed := FrameCount e\<rparr>)) = [] \<and>
     Render pf e d =
           CullObjects pf e (FrameCount e)
             (RemoveUnusedObjects (FrameCount e)
                (AddObjects e (FrameCount e)
                   (NewAtlasTiles (Resolution d)
                      (ClearObjects (FrameCount e) (d\<lparr>CustomBuffer_LastFrameUsed := FrameCount e\<rparr>))))) \<and>
     LastFrameAtlasDefragmentation (snd (Render pf e d)) = FrameCount e"
proof -
  from recent have "FrameCount e - LastFrameAtlasInsertFail d < 10 \<and>
        FrameCount e - LastFrameAtlasDefragmentation d > 60"
    using window_conditions by blast
  then have ib: "InitializeBuffers e (FrameCount e) (Resolution d)
           (d\<lparr>CustomBuffer_LastFrameUsed := FrameCount e\<rparr>)
         = (False, ClearObjects (FrameCount e) (d\<lparr>CustomBuffer_LastFrameUsed := FrameCount e\<rparr>))"
    by (simp add: InitializeBuffers_def)
  have cl: "Objects (ClearObjects (FrameCount e) (d\<lparr>CustomBuffer_LastFrameUsed := FrameCount e\<rparr>)) = []"
    "AtlasTiles (ClearObjects (FrameCount e) (d\<lparr>CustomBuffer_LastFrameUsed := FrameCount e\<rparr>)) = []"
    by (simp_all add: ClearObjects_def)
  have r: "Render pf e d =
           CullObjects pf e (FrameCount e)
             (RemoveUnusedObjects (FrameCount e)
                (AddObjects e (FrameCount e)
                   (NewAtlasTiles (Resolution d)
                      (ClearObjects (FrameCount e) (d\<lparr>CustomBuffer_LastFrameUsed := FrameCount e\<rparr>)))))"
  proof -
    have cl: "Clamp (GlobalSurfaceAtlasResolution e) 256 (GPU_MAX_TEXTURE_SIZE pf) = Resolution d"
      by (rule same [symmetric])
    show ?thesis
      unfolding Render_def Let_def cl ib using head by simp
  qed
  have "LastFrameAtlasDefragmentation (snd (Render pf e d))
      = LastFrameAtlasDefragmentation
          (ClearObjects (FrameCount e) (d\<lparr>CustomBuffer_LastFrameUsed := FrameCount e\<rparr>))"
    unfolding r by (rule after_init_defrag)
  then have "LastFrameAtlasDefragmentation (snd (Render pf e d)) = FrameCount e"
    by (simp add: ClearObjects_def)
  with ib cl r show ?thesis by (intro conjI)
qed

theorem defragmentation_trigger_witness:
  "\<not> checkIfSkipPass frame200 \<and> ScenesCount frame200 \<noteq> 0 \<and> \<not> sdfRenderFails frame200 \<and>
   CustomBuffer_LastFrameUsed atlas199 \<noteq> FrameCount frame200 \<and>
   Resolution atlas199 = Clamp (GlobalSurfaceAtlasResolution frame200) 256 (GPU_MAX_TEXTURE_SIZE platform0) \<and>
   FrameCount frame200 - LastFrameAtlasInsertFail atlas199 < 10 \<and>
   FrameCount frame200 - LastFrameAtlasDefragmentation atlas199 > 60 \<and>
   Objects atlas199 \<noteq> [] \<and>
   Objects (snd (InitializeBuffers frame200 (FrameCount frame200) (Resolution atlas199)
                  (atlas199\<lparr>CustomBuffer_LastFrameUsed := FrameCount frame200\<rparr>))) = [] \<and>
   LastFrameAtlasDefragmentation (snd (Render platform0 frame200 atlas199)) = 200"
proof -
  have h: "\<not> checkIfSkipPass frame200" "ScenesCount frame200 \<noteq> 0" "\<not> sdfRenderFails frame200"
    "CustomBuffer_LastFrameUsed atlas199 \<noteq> FrameCount frame200"
    by (simp_all add: frame200_def atlas199_def)
  have s: "Resolution atlas199 = Clamp (GlobalSurfaceAtlasResolution frame200) 256 (GPU_MAX_TEXTURE_SIZE platform0)"
    by (simp add: frame200_def atlas199_def platform0_def Clamp_def)
  have c: "FrameCount frame200 - LastFrameAtlasInsertFail atlas199 < 10"
    "FrameCount frame200 - LastFrameAtlasDefragmentation atlas199 > 60"
    by (simp_all add: frame200_def atlas199_def)
  have o: "Objects atlas199 \<noteq> []" by (simp add: atlas199_def)
  have f: "FrameCount frame200 = 200" by (simp add: frame200_def)
  from c have "(FrameCount frame200 - LastFrameAtlasInsertFail atlas199 < 10 \<and>
        FrameCount frame200 - LastFrameAtlasDefragmentation atlas199 > 60) \<or>
       (unat (LastFrameAtlasDefragmentation atlas199) + 60 < unat (LastFrameAtlasInsertFail atlas199) \<and>
        unat (LastFrameAtlasInsertFail atlas199) \<le> unat (FrameCount frame200) \<and>
        unat (FrameCount frame200) < unat (LastFrameAtlasInsertFail atlas199) + 10)"
    by blast
  note t = defragmentation_trigger [OF h s this]
  have a: "Objects (snd (InitializeBuffers frame200 (FrameCount frame200) (Resolution atlas199)
                  (atlas199\<lparr>CustomBuffer_LastFrameUsed := FrameCount frame200\<rparr>))) = []"
    unfolding t [THEN conjunct1] snd_conv by (rule t [THEN conjunct2, THEN conjunct1])
  have b: "LastFrameAtlasDefragmentation (snd (Render platform0 frame200 atlas199)) = 200"
    using t [THEN conjunct2, THEN conjunct2, THEN conjunct2, THEN conjunct2] unfolding f .
  from h s c o a b show ?thesis by (intro conjI)
qed


section \<open>The removal of unused objects\<close>

text \<open>
  Claim C3. In any run of \<^verbatim>\<open>Render\<close> that starts with an empty cache, take an object
  that is in the cache when the removal of unused objects of a frame starts. If its
  \<^verbatim>\<open>LastFrameUsed\<close> is not the current frame, then after the removal the cache has no entry
  for it, each of its tiles, in use before, is the same rectangle marked free, and for any
  size that fits into that rectangle the rectangle is a candidate of \<^verbatim>\<open>Insert\<close> and
  \<^verbatim>\<open>Insert\<close> succeeds. If its \<^verbatim>\<open>LastFrameUsed\<close> is the current frame, the entry is the same
  after the removal and each of its tiles is untouched. When \<^verbatim>\<open>Render\<close> gets as far as the
  culling, the cache and the packer it returns are those that the removal left.
\<close>

theorem removal_pass:
  assumes "Objects d0 = []"
    and "TryGet k (Objects (drawn pf e (frames pf es d0))) = Some ob"
  shows "(LastFrameUsed ob \<noteq> FrameCount e \<longrightarrow>
        TryGet k (Objects (swept pf e (frames pf es d0))) = None \<and>
        (\<forall>i t. i < 6 \<and> Tiles ob ! i = Some t \<longrightarrow>
           IsUsed (AtlasTiles (drawn pf e (frames pf es d0)) ! t) \<and>
           AtlasTiles (swept pf e (frames pf es d0)) ! t =
             (AtlasTiles (drawn pf e (frames pf es d0)) ! t)\<lparr>IsUsed := False\<rparr> \<and>
           (\<forall>w h. w \<le> Width (AtlasTiles (drawn pf e (frames pf es d0)) ! t) \<and>
                  h \<le> Height (AtlasTiles (drawn pf e (frames pf es d0)) ! t) \<longrightarrow>
                  fits w h (AtlasTiles (swept pf e (frames pf es d0)) ! t) \<and>
                  fst (Insert w h (AtlasTiles (swept pf e (frames pf es d0)))) \<noteq> None))) \<and>
     (LastFrameUsed ob = FrameCount e \<longrightarrow>
        TryGet k (Objects (swept pf e (frames pf es d0))) = Some ob \<and>
        (\<forall>i t. i < 6 \<and> Tiles ob ! i = Some t \<longrightarrow>
           AtlasTiles (swept pf e (frames pf es d0)) ! t =
             AtlasTiles (drawn pf e (frames pf es d0)) ! t)) \<and>
     (proceeds pf e (frames pf es d0) \<longrightarrow>
        Objects (snd (Render pf e (frames pf es d0))) = Objects (swept pf e (frames pf es d0)) \<and>
        AtlasTiles (snd (Render pf e (frames pf es d0))) =
          AtlasTiles (swept pf e (frames pf es d0)))"
proof -
  define dm where "dm = drawn pf e (frames pf es d0)"
  define ds where "ds = swept pf e (frames pf es d0)"
  have sw: "ds = RemoveUnusedObjects (FrameCount e) dm" by (simp add: ds_def dm_def swept_def)
  have wf: "cache_wf dm" unfolding dm_def by (rule frames_drawn_cache_wf [OF assms(1)])
  from assms(2) have en: "TryGet k (Objects dm) = Some ob" by (simp add: dm_def)
  have len: "length (AtlasTiles ds) = length (AtlasTiles dm)"
    by (simp add: sw RemoveUnusedObjects_fields)
  have a: "TryGet k (Objects ds) = None \<and>
        (\<forall>i t. i < 6 \<and> Tiles ob ! i = Some t \<longrightarrow>
           IsUsed (AtlasTiles dm ! t) \<and>
           AtlasTiles ds ! t = (AtlasTiles dm ! t)\<lparr>IsUsed := False\<rparr> \<and>
           (\<forall>w h. w \<le> Width (AtlasTiles dm ! t) \<and> h \<le> Height (AtlasTiles dm ! t) \<longrightarrow>
                  fits w h (AtlasTiles ds ! t) \<and> fst (Insert w h (AtlasTiles ds)) \<noteq> None))"
    if un: "LastFrameUsed ob \<noteq> FrameCount e"
  proof (intro conjI allI impI)
    show "TryGet k (Objects ds) = None"
      unfolding sw by (rule RemoveUnusedObjects_removed(1) [OF wf en un])
  next
    fix i t assume "i < 6 \<and> Tiles ob ! i = Some t"
    then have r: "t < length (AtlasTiles dm) \<and> IsUsed (AtlasTiles dm ! t) \<and>
           AtlasTiles ds ! t = (AtlasTiles dm ! t)\<lparr>IsUsed := False\<rparr>"
      unfolding sw using RemoveUnusedObjects_removed(2) [OF wf en un] by blast
    from r show "IsUsed (AtlasTiles dm ! t)" by simp
    from r show e: "AtlasTiles ds ! t = (AtlasTiles dm ! t)\<lparr>IsUsed := False\<rparr>" by simp
    fix w h assume wh: "w \<le> Width (AtlasTiles dm ! t) \<and> h \<le> Height (AtlasTiles dm ! t)"
    from r len have tl: "t < length (AtlasTiles ds)" by simp
    from e wh have c: "\<not> IsUsed (AtlasTiles ds ! t)" "w \<le> Width (AtlasTiles ds ! t)"
      "h \<le> Height (AtlasTiles ds ! t)"
      by simp_all
    from Insert_into_free [OF tl c]
    show "fits w h (AtlasTiles ds ! t)" "fst (Insert w h (AtlasTiles ds)) \<noteq> None" by simp_all
  qed
  have b: "TryGet k (Objects ds) = Some ob \<and>
        (\<forall>i t. i < 6 \<and> Tiles ob ! i = Some t \<longrightarrow> AtlasTiles ds ! t = AtlasTiles dm ! t)"
    if us: "LastFrameUsed ob = FrameCount e"
    unfolding sw using RemoveUnusedObjects_kept [OF wf en us] by blast
  have c: "Objects (snd (Render pf e (frames pf es d0))) = Objects ds \<and>
        AtlasTiles (snd (Render pf e (frames pf es d0))) = AtlasTiles ds"
    if "proceeds pf e (frames pf es d0)"
    unfolding Render_proceeds [OF that] ds_def
    by (simp add: CullObjects_Objects CullObjects_AtlasTiles)
  show ?thesis
    unfolding dm_def [symmetric] ds_def [symmetric]
  proof (intro conjI impI)
    assume "LastFrameUsed ob \<noteq> FrameCount e"
    from a [OF this] show "TryGet k (Objects ds) = None"
      and "\<forall>i t. i < 6 \<and> Tiles ob ! i = Some t \<longrightarrow>
           IsUsed (AtlasTiles dm ! t) \<and>
           AtlasTiles ds ! t = (AtlasTiles dm ! t)\<lparr>IsUsed := False\<rparr> \<and>
           (\<forall>w h. w \<le> Width (AtlasTiles dm ! t) \<and> h \<le> Height (AtlasTiles dm ! t) \<longrightarrow>
                  fits w h (AtlasTiles ds ! t) \<and> fst (Insert w h (AtlasTiles ds)) \<noteq> None)"
      by (rule conjunct1, rule conjunct2)
  next
    assume "LastFrameUsed ob = FrameCount e"
    from b [OF this] show "TryGet k (Objects ds) = Some ob"
      and "\<forall>i t. i < 6 \<and> Tiles ob ! i = Some t \<longrightarrow> AtlasTiles ds ! t = AtlasTiles dm ! t"
      by (rule conjunct1, rule conjunct2)
  next
    assume "proceeds pf e (frames pf es d0)"
    from c [OF this] show "Objects (snd (Render pf e (frames pf es d0))) = Objects ds"
      and "AtlasTiles (snd (Render pf e (frames pf es d0))) = AtlasTiles ds"
      by (rule conjunct1, rule conjunct2)
  qed
qed

theorem removal_pass_witness:
  "Objects atlas_new = [] \<and>
   TryGet 7 (Objects (drawn platform0 frame200_empty (frames platform0 [frame100] atlas_new))) =
     Some \<lparr>LastFrameUsed = 100, LastFrameDirty = 100, Actor = 1,
           Tiles = [Some 0, Some 1, Some 2, Some 3, Some 4, Some 5]\<rparr> \<and>
   FrameCount frame200_empty = 200 \<and>
   AtlasTiles (drawn platform0 frame200_empty (frames platform0 [frame100] atlas_new)) ! 0 =
     \<lparr>X = 0, Y = 0, Width = 64, Height = 64, IsUsed = True\<rparr> \<and>
   TryGet 7 (Objects (swept platform0 frame200_empty (frames platform0 [frame100] atlas_new))) = None \<and>
   AtlasTiles (swept platform0 frame200_empty (frames platform0 [frame100] atlas_new)) ! 0 =
     \<lparr>X = 0, Y = 0, Width = 64, Height = 64, IsUsed = False\<rparr> \<and>
   fst (Insert 64 64
     (AtlasTiles (swept platform0 frame200_empty (frames platform0 [frame100] atlas_new)))) \<noteq> None \<and>
   fst (Insert 32 16
     (AtlasTiles (swept platform0 frame200_empty (frames platform0 [frame100] atlas_new)))) \<noteq> None \<and>
   TryGet 7 (Objects (drawn platform0 frame200 (frames platform0 [frame100] atlas_new))) =
     Some \<lparr>LastFrameUsed = 200, LastFrameDirty = 200, Actor = 1,
           Tiles = [Some 0, Some 1, Some 2, Some 3, Some 4, Some 5]\<rparr> \<and>
   FrameCount frame200 = 200 \<and>
   TryGet 7 (Objects (swept platform0 frame200 (frames platform0 [frame100] atlas_new))) =
     Some \<lparr>LastFrameUsed = 200, LastFrameDirty = 200, Actor = 1,
           Tiles = [Some 0, Some 1, Some 2, Some 3, Some 4, Some 5]\<rparr> \<and>
   AtlasTiles (swept platform0 frame200 (frames platform0 [frame100] atlas_new)) ! 0 =
     \<lparr>X = 0, Y = 0, Width = 64, Height = 64, IsUsed = True\<rparr>"
proof -
  have h1: "Objects atlas_new = []" by (simp add: atlas_new_def)
  have h2: "TryGet 7 (Objects (drawn platform0 frame200_empty (frames platform0 [frame100] atlas_new))) =
     Some \<lparr>LastFrameUsed = 100, LastFrameDirty = 100, Actor = 1,
           Tiles = [Some 0, Some 1, Some 2, Some 3, Some 4, Some 5]\<rparr>"
    by code_simp
  have h3: "TryGet 7 (Objects (drawn platform0 frame200 (frames platform0 [frame100] atlas_new))) =
     Some \<lparr>LastFrameUsed = 200, LastFrameDirty = 200, Actor = 1,
           Tiles = [Some 0, Some 1, Some 2, Some 3, Some 4, Some 5]\<rparr>"
    by code_simp
  have f: "FrameCount frame200_empty = 200" "FrameCount frame200 = 200"
    by (simp_all add: frame200_empty_def frame200_def)
  have v: "AtlasTiles (drawn platform0 frame200_empty (frames platform0 [frame100] atlas_new)) ! 0 =
     \<lparr>X = 0, Y = 0, Width = 64, Height = 64, IsUsed = True\<rparr>"
    "AtlasTiles (drawn platform0 frame200 (frames platform0 [frame100] atlas_new)) ! 0 =
     \<lparr>X = 0, Y = 0, Width = 64, Height = 64, IsUsed = True\<rparr>"
    by code_simp+
  note A = removal_pass [OF h1 h2, THEN conjunct1, rule_format]
  note B = removal_pass [OF h1 h3, THEN conjunct2, THEN conjunct1, rule_format]
  have un: "LastFrameUsed \<lparr>LastFrameUsed = 100, LastFrameDirty = 100, Actor = 1,
           Tiles = [Some 0, Some 1, Some 2, Some 3, Some 4, Some 5]\<rparr> \<noteq> FrameCount frame200_empty"
    by (simp add: f)
  have us: "LastFrameUsed \<lparr>LastFrameUsed = 200, LastFrameDirty = 200, Actor = 1,
           Tiles = [Some 0, Some 1, Some 2, Some 3, Some 4, Some 5]\<rparr> = FrameCount frame200"
    by (simp add: f)
  have t0: "(0 :: nat) < 6 \<and> Tiles \<lparr>LastFrameUsed = 100, LastFrameDirty = 100, Actor = 1,
           Tiles = [Some 0, Some 1, Some 2, Some 3, Some 4, Some 5]\<rparr> ! 0 = Some 0"
    "(0 :: nat) < 6 \<and> Tiles \<lparr>LastFrameUsed = 200, LastFrameDirty = 200, Actor = 1,
           Tiles = [Some 0, Some 1, Some 2, Some 3, Some 4, Some 5]\<rparr> ! 0 = Some 0"
    by simp_all
  from A [OF un] have a1:
    "TryGet 7 (Objects (swept platform0 frame200_empty (frames platform0 [frame100] atlas_new))) = None"
    by (rule conjunct1)
  from A [OF un, THEN conjunct2, rule_format, OF t0(1)] have a2:
    "AtlasTiles (swept platform0 frame200_empty (frames platform0 [frame100] atlas_new)) ! 0 =
     \<lparr>X = 0, Y = 0, Width = 64, Height = 64, IsUsed = False\<rparr>"
    and a3: "\<And>w h. w \<le> 64 \<and> h \<le> 64 \<Longrightarrow>
      fst (Insert w h
        (AtlasTiles (swept platform0 frame200_empty (frames platform0 [frame100] atlas_new)))) \<noteq> None"
    unfolding v by simp_all
  from a3 [of 64 64] a3 [of 32 16] have a4:
    "fst (Insert 64 64
      (AtlasTiles (swept platform0 frame200_empty (frames platform0 [frame100] atlas_new)))) \<noteq> None"
    "fst (Insert 32 16
      (AtlasTiles (swept platform0 frame200_empty (frames platform0 [frame100] atlas_new)))) \<noteq> None"
    by simp_all
  from B [OF us] have b1:
    "TryGet 7 (Objects (swept platform0 frame200 (frames platform0 [frame100] atlas_new))) =
     Some \<lparr>LastFrameUsed = 200, LastFrameDirty = 200, Actor = 1,
           Tiles = [Some 0, Some 1, Some 2, Some 3, Some 4, Some 5]\<rparr>"
    by (rule conjunct1)
  from B [OF us, THEN conjunct2, rule_format, OF t0(2)] have b2:
    "AtlasTiles (swept platform0 frame200 (frames platform0 [frame100] atlas_new)) ! 0 =
     \<lparr>X = 0, Y = 0, Width = 64, Height = 64, IsUsed = True\<rparr>"
    unfolding v by simp
  from h1 h2 f(1) v(1) a1 a2 a4 h3 f(2) b1 b2 show ?thesis by (intro conjI)
qed
section \<open>The resolution handed to the packer\<close>

lemma tileResolution_props:
  "8 dvd unat (tileResolution r) \<and> GLOBAL_SURFACE_ATLAS_TILE_SIZE_MIN \<le> tileResolution r \<and>
   tileResolution r \<le> GLOBAL_SURFACE_ATLAS_TILE_SIZE_MAX"
  by (simp add: word_le_nat_alt tileResolution_unat GLOBAL_SURFACE_ATLAS_TILE_SIZE_MIN_def
      GLOBAL_SURFACE_ATLAS_TILE_SIZE_MAX_def) arith

lemma tileResolution_value:
  "unat (tileResolution r) = min 192 (max 8 (unat r)) div 8 * 8"
  by (simp add: tileResolution_unat min_def max_def)

lemma face_packer:
  assumes "push_bit i 1 AND tilesMask a \<noteq> 0" and "4 \<le> faceResolution a i"
  shows "AtlasTiles (fst (face a i (d, anyTile, dirty))) =
     (if keeps a i d then AtlasTiles d else snd (attempt a i d))"
proof (cases "keeps a i d")
  case True
  from assms(2) have "\<not> faceResolution a i < 4" by (simp add: not_less)
  from face_keep [OF assms(1) this True] True show ?thesis by simp
next
  case False
  from assms(2) have "\<not> faceResolution a i < 4" by (simp add: not_less)
  from face_pack [OF assms(1) this False, of anyTile dirty] False show ?thesis
    by (cases "fst (attempt a i d)") (simp_all add: attempt_def Let_def set_tile_def)
qed

text \<open>
  Claim C4. For a face that \<^verbatim>\<open>RasterizeActor\<close> processes with a resolution of at least 4
  texels, the tile resolution it computes is the face resolution clamped into
  \<^verbatim>\<open>GLOBAL_SURFACE_ATLAS_TILE_SIZE_MIN\<close> = 8 and \<^verbatim>\<open>GLOBAL_SURFACE_ATLAS_TILE_SIZE_MAX\<close> = 192
  and then rounded down to a multiple of 8; so it is a multiple of 8 within these bounds.
  Unless the face keeps the tile it has, the packer that the face leaves is the one that
  \<^verbatim>\<open>Insert\<close> returns for a square of exactly that side, called on the packer with the old
  tile of the face freed.
\<close>

theorem tile_resolution_aligned:
  assumes "push_bit i 1 AND tilesMask a \<noteq> 0" and "4 \<le> faceResolution a i"
  shows "unat (tileResolution (faceResolution a i)) =
       min 192 (max 8 (unat (faceResolution a i))) div 8 * 8 \<and>
     8 dvd unat (tileResolution (faceResolution a i)) \<and>
     GLOBAL_SURFACE_ATLAS_TILE_SIZE_MIN \<le> tileResolution (faceResolution a i) \<and>
     tileResolution (faceResolution a i) \<le> GLOBAL_SURFACE_ATLAS_TILE_SIZE_MAX \<and>
     AtlasTiles (fst (face a i (d, anyTile, dirty))) =
       (if keeps a i d then AtlasTiles d
        else snd (Insert (min 192 (max 8 (unat (faceResolution a i))) div 8 * 8)
                         (min 192 (max 8 (unat (faceResolution a i))) div 8 * 8)
                         (case slot d (actorObject a) i of
                            None \<Rightarrow> AtlasTiles d
                          | Some t \<Rightarrow> Free t (AtlasTiles d))))"
proof -
  have "AtlasTiles (fst (face a i (d, anyTile, dirty))) =
       (if keeps a i d then AtlasTiles d
        else snd (Insert (min 192 (max 8 (unat (faceResolution a i))) div 8 * 8)
                         (min 192 (max 8 (unat (faceResolution a i))) div 8 * 8)
                         (case slot d (actorObject a) i of
                            None \<Rightarrow> AtlasTiles d
                          | Some t \<Rightarrow> Free t (AtlasTiles d))))"
    unfolding face_packer [OF assms] attempt_def tileResolution_value ..
  with tileResolution_props [of "faceResolution a i"] tileResolution_value [of "faceResolution a i"]
  show ?thesis by (intro conjI) simp_all
qed


theorem tile_resolution_aligned_witness:
  "push_bit 0 1 AND tilesMask actor7 \<noteq> 0 \<and> 4 \<le> faceResolution actor7 0 \<and>
   faceResolution actor7 0 = 70 \<and>
   unat (tileResolution (faceResolution actor7 0)) = 64 \<and>
   AtlasTiles (fst (face actor7 0 (atlas100, False, False))) =
     [\<lparr>X = 0, Y = 0, Width = 64, Height = 64, IsUsed = True\<rparr>,
      \<lparr>X = 0, Y = 64, Width = 64, Height = 192, IsUsed = False\<rparr>,
      \<lparr>X = 64, Y = 0, Width = 192, Height = 256, IsUsed = False\<rparr>] \<and>
   push_bit 0 1 AND tilesMask actor7_grown \<noteq> 0 \<and> 4 \<le> faceResolution actor7_grown 0 \<and>
   faceResolution actor7_grown 0 = 200 \<and>
   unat (tileResolution (faceResolution actor7_grown 0)) = 192 \<and>
   AtlasTiles (fst (face actor7_grown 0 (atlas199, False, False))) =
     [\<lparr>X = 0, Y = 0, Width = 64, Height = 64, IsUsed = False\<rparr>,
      \<lparr>X = 0, Y = 64, Width = 64, Height = 192, IsUsed = False\<rparr>,
      \<lparr>X = 64, Y = 0, Width = 192, Height = 192, IsUsed = True\<rparr>,
      \<lparr>X = 64, Y = 192, Width = 192, Height = 64, IsUsed = False\<rparr>] \<and>
   push_bit 1 1 AND tilesMask actor7_grown \<noteq> 0 \<and> 4 \<le> faceResolution actor7_grown 1 \<and>
   faceResolution actor7_grown 1 = 5 \<and>
   unat (tileResolution (faceResolution actor7_grown 1)) = 8"
proof -
  have h: "push_bit 0 1 AND tilesMask actor7 \<noteq> 0" "4 \<le> faceResolution actor7 0"
    "push_bit 0 1 AND tilesMask actor7_grown \<noteq> 0" "4 \<le> faceResolution actor7_grown 0"
    "push_bit 1 1 AND tilesMask actor7_grown \<noteq> 0" "4 \<le> faceResolution actor7_grown 1"
    by (simp_all add: actor7_def actor7_grown_def)
  have r: "faceResolution actor7 0 = 70" "faceResolution actor7_grown 0 = 200"
    "faceResolution actor7_grown 1 = 5"
    by (simp_all add: actor7_def actor7_grown_def)
  have k: "\<not> keeps actor7 0 atlas100" "\<not> keeps actor7_grown 0 atlas199"
    by code_simp+
  have p: "snd (Insert 64 64 (case slot atlas100 (actorObject actor7) 0 of
                                None \<Rightarrow> AtlasTiles atlas100
                              | Some t \<Rightarrow> Free t (AtlasTiles atlas100))) =
     [\<lparr>X = 0, Y = 0, Width = 64, Height = 64, IsUsed = True\<rparr>,
      \<lparr>X = 0, Y = 64, Width = 64, Height = 192, IsUsed = False\<rparr>,
      \<lparr>X = 64, Y = 0, Width = 192, Height = 256, IsUsed = False\<rparr>]"
    "snd (Insert 192 192 (case slot atlas199 (actorObject actor7_grown) 0 of
                                None \<Rightarrow> AtlasTiles atlas199
                              | Some t \<Rightarrow> Free t (AtlasTiles atlas199))) =
     [\<lparr>X = 0, Y = 0, Width = 64, Height = 64, IsUsed = False\<rparr>,
      \<lparr>X = 0, Y = 64, Width = 64, Height = 192, IsUsed = False\<rparr>,
      \<lparr>X = 64, Y = 0, Width = 192, Height = 192, IsUsed = True\<rparr>,
      \<lparr>X = 64, Y = 192, Width = 192, Height = 64, IsUsed = False\<rparr>]"
    by code_simp+
  from tile_resolution_aligned [OF h(1,2), of atlas100 False False] k(1) p(1)
  have a: "unat (tileResolution (faceResolution actor7 0)) = 64"
    "AtlasTiles (fst (face actor7 0 (atlas100, False, False))) =
     [\<lparr>X = 0, Y = 0, Width = 64, Height = 64, IsUsed = True\<rparr>,
      \<lparr>X = 0, Y = 64, Width = 64, Height = 192, IsUsed = False\<rparr>,
      \<lparr>X = 64, Y = 0, Width = 192, Height = 256, IsUsed = False\<rparr>]"
    by (simp_all add: r)
  from tile_resolution_aligned [OF h(3,4), of atlas199 False False] k(2) p(2)
  have b: "unat (tileResolution (faceResolution actor7_grown 0)) = 192"
    "AtlasTiles (fst (face actor7_grown 0 (atlas199, False, False))) =
     [\<lparr>X = 0, Y = 0, Width = 64, Height = 64, IsUsed = False\<rparr>,
      \<lparr>X = 0, Y = 64, Width = 64, Height = 192, IsUsed = False\<rparr>,
      \<lparr>X = 64, Y = 0, Width = 192, Height = 192, IsUsed = True\<rparr>,
      \<lparr>X = 64, Y = 192, Width = 192, Height = 64, IsUsed = False\<rparr>]"
    by (simp_all add: r)
  have c: "unat (tileResolution (faceResolution actor7_grown 1)) = 8"
    using tile_resolution_aligned [OF h(5,6), of atlas199 False False, THEN conjunct1]
    unfolding r(3) by simp
  from h r a b c show ?thesis by (intro conjI)
qed

section \<open>Keeping a tile or fitting it anew\<close>

text \<open>
  Claim C5. Take a face that \<^verbatim>\<open>RasterizeActor\<close> processes with a resolution of at least 4
  texels and that has a tile. If the tile resolution computed differs from the width of the
  tile by less than 32, the turn of the loop sets \<^verbatim>\<open>anyTile\<close> and changes nothing else:
  cache, packer and \<^verbatim>\<open>dirty\<close> stay. Otherwise the tile is freed and \<^verbatim>\<open>Insert\<close> is called
  with the new size on the packer so obtained; on success the new tile is stored for the
  face and \<^verbatim>\<open>anyTile\<close> and \<^verbatim>\<open>dirty\<close> are set, on failure the pointer of the face is set
  to null and the failure is recorded.
  Over a frame, in any run that starts with an empty cache: when a face has a tile at the
  start of the draws, the object is drawn, and every call for the object selects the face
  with a resolution within that band, then after the removal of unused objects, and in the
  state \<^verbatim>\<open>Render\<close> returns, the face has the same tile with the same rectangle, still in
  use.
\<close>

theorem tile_reuse:
  "(push_bit i 1 AND tilesMask a \<noteq> 0 \<and> 4 \<le> faceResolution a i \<and>
    slot d (actorObject a) i = Some t \<longrightarrow>
      (\<bar>uint (tileResolution (faceResolution a i)) - int (Width (AtlasTiles d ! t))\<bar> < 32 \<longrightarrow>
         face a i (d, anyTile, dirty) = (d, True, dirty)) \<and>
      (\<not> \<bar>uint (tileResolution (faceResolution a i)) - int (Width (AtlasTiles d ! t))\<bar> < 32 \<longrightarrow>
         face a i (d, anyTile, dirty) =
           (case fst (Insert (unat (tileResolution (faceResolution a i)))
                        (unat (tileResolution (faceResolution a i))) (Free t (AtlasTiles d))) of
              Some t' \<Rightarrow>
                (set_tile (actorObject a) i (Some t')
                   (d\<lparr>AtlasTiles := snd (Insert (unat (tileResolution (faceResolution a i)))
                        (unat (tileResolution (faceResolution a i))) (Free t (AtlasTiles d)))\<rparr>),
                 True, True)
            | None \<Rightarrow>
                ((set_tile (actorObject a) i None
                   (d\<lparr>AtlasTiles := snd (Insert (unat (tileResolution (faceResolution a i)))
                        (unat (tileResolution (faceResolution a i))) (Free t (AtlasTiles d)))\<rparr>))
                   \<lparr>LastFrameAtlasInsertFail := CurrentFrame d\<rparr>,
                 anyTile, dirty)))) \<and>
   (Objects d0 = [] \<and> i < 6 \<and>
    slot (prepared pf e (frames pf es d0)) k i = Some u \<and>
    (\<exists>b \<in> set (draws e). actorObject b = k) \<and>
    (\<forall>b \<in> set (draws e). actorObject b = k \<longrightarrow>
       push_bit i 1 AND tilesMask b \<noteq> 0 \<and> 4 \<le> faceResolution b i \<and>
       \<bar>uint (tileResolution (faceResolution b i)) -
        int (Width (AtlasTiles (prepared pf e (frames pf es d0)) ! u))\<bar> < 32) \<longrightarrow>
      slot (swept pf e (frames pf es d0)) k i = Some u \<and>
      AtlasTiles (swept pf e (frames pf es d0)) ! u =
        AtlasTiles (prepared pf e (frames pf es d0)) ! u \<and>
      (proceeds pf e (frames pf es d0) \<longrightarrow>
         slot (snd (Render pf e (frames pf es d0))) k i = Some u \<and>
         AtlasTiles (snd (Render pf e (frames pf es d0))) ! u =
           AtlasTiles (prepared pf e (frames pf es d0)) ! u))"
proof (intro conjI impI)
  assume h: "push_bit i 1 AND tilesMask a \<noteq> 0 \<and> 4 \<le> faceResolution a i \<and>
    slot d (actorObject a) i = Some t"
  {
    assume b: "\<bar>uint (tileResolution (faceResolution a i)) - int (Width (AtlasTiles d ! t))\<bar> < 32"
    from h have r: "\<not> faceResolution a i < 4" by (simp add: not_less)
    from b h have "keeps a i d" by (simp add: keeps_def tileRefitResolutionStep_def)
    from face_keep [OF _ r this] h show "face a i (d, anyTile, dirty) = (d, True, dirty)" by simp
  }
  {
    assume nb: "\<not> \<bar>uint (tileResolution (faceResolution a i)) - int (Width (AtlasTiles d ! t))\<bar> < 32"
    from h have m: "push_bit i 1 AND tilesMask a \<noteq> 0" and r: "4 \<le> faceResolution a i"
      and s: "slot d (actorObject a) i = Some t"
      by simp_all
    show "face a i (d, anyTile, dirty) =
           (case fst (Insert (unat (tileResolution (faceResolution a i)))
                        (unat (tileResolution (faceResolution a i))) (Free t (AtlasTiles d))) of
              Some t' \<Rightarrow>
                (set_tile (actorObject a) i (Some t')
                   (d\<lparr>AtlasTiles := snd (Insert (unat (tileResolution (faceResolution a i)))
                        (unat (tileResolution (faceResolution a i))) (Free t (AtlasTiles d)))\<rparr>),
                 True, True)
            | None \<Rightarrow>
                ((set_tile (actorObject a) i None
                   (d\<lparr>AtlasTiles := snd (Insert (unat (tileResolution (faceResolution a i)))
                        (unat (tileResolution (faceResolution a i))) (Free t (AtlasTiles d)))\<rparr>))
                   \<lparr>LastFrameAtlasInsertFail := CurrentFrame d\<rparr>,
                 anyTile, dirty))"
      by (rule face_refit [OF m r s nb])
  }
next
  assume f: "Objects d0 = [] \<and> i < 6 \<and>
    slot (prepared pf e (frames pf es d0)) k i = Some u \<and>
    (\<exists>b \<in> set (draws e). actorObject b = k) \<and>
    (\<forall>b \<in> set (draws e). actorObject b = k \<longrightarrow>
       push_bit i 1 AND tilesMask b \<noteq> 0 \<and> 4 \<le> faceResolution b i \<and>
       \<bar>uint (tileResolution (faceResolution b i)) -
        int (Width (AtlasTiles (prepared pf e (frames pf es d0)) ! u))\<bar> < 32)"
  then have wf: "cache_wf (frames pf es d0)"
    by (intro frames_cache_wf cache_wf_Objects_Nil) simp
  from f have i: "i < 6" and s: "slot (prepared pf e (frames pf es d0)) k i = Some u"
    and dr: "\<exists>b \<in> set (draws e). actorObject b = k"
    and band: "\<forall>b \<in> set (draws e). actorObject b = k \<longrightarrow>
       in_band i (AtlasTiles (prepared pf e (frames pf es d0)) ! u) b"
    by (simp_all add: in_band_def tileRefitResolutionStep_def)
  note S = swept_held [OF wf i s dr band]
  show "slot (swept pf e (frames pf es d0)) k i = Some u" by (rule S(1))
  show "AtlasTiles (swept pf e (frames pf es d0)) ! u =
        AtlasTiles (prepared pf e (frames pf es d0)) ! u" by (rule S(2))
  {
    assume p: "proceeds pf e (frames pf es d0)"
    have "slot (snd (Render pf e (frames pf es d0))) k i = slot (swept pf e (frames pf es d0)) k i"
      unfolding Render_proceeds [OF p] by (rule slot_Objects_cong) (rule CullObjects_Objects)
    with S(1) show "slot (snd (Render pf e (frames pf es d0))) k i = Some u" by simp
    from S(2) show "AtlasTiles (snd (Render pf e (frames pf es d0))) ! u =
           AtlasTiles (prepared pf e (frames pf es d0)) ! u"
      unfolding Render_proceeds [OF p] by (simp add: CullObjects_AtlasTiles)
  }
qed

theorem tile_reuse_witness:
  "push_bit 0 1 AND tilesMask actor7 \<noteq> 0 \<and> 4 \<le> faceResolution actor7 0 \<and>
   slot atlas199 (actorObject actor7) 0 = Some 0 \<and>
   \<bar>uint (tileResolution (faceResolution actor7 0)) - int (Width (AtlasTiles atlas199 ! 0))\<bar> = 0 \<and>
   face actor7 0 (atlas199, False, False) = (atlas199, True, False) \<and>
   push_bit 0 1 AND tilesMask actor7_grown \<noteq> 0 \<and> 4 \<le> faceResolution actor7_grown 0 \<and>
   slot atlas199 (actorObject actor7_grown) 0 = Some 0 \<and>
   \<bar>uint (tileResolution (faceResolution actor7_grown 0)) - int (Width (AtlasTiles atlas199 ! 0))\<bar> = 128 \<and>
   AtlasTiles (fst (face actor7_grown 0 (atlas199, False, False))) =
     [\<lparr>X = 0, Y = 0, Width = 64, Height = 64, IsUsed = False\<rparr>,
      \<lparr>X = 0, Y = 64, Width = 64, Height = 192, IsUsed = False\<rparr>,
      \<lparr>X = 64, Y = 0, Width = 192, Height = 192, IsUsed = True\<rparr>,
      \<lparr>X = 64, Y = 192, Width = 192, Height = 64, IsUsed = False\<rparr>] \<and>
   slot (fst (face actor7_grown 0 (atlas199, False, False))) 7 0 = Some 2 \<and>
   snd (face actor7_grown 0 (atlas199, False, False)) = (True, True) \<and>
   Objects atlas_new = [] \<and> draws frame200 = [actor7] \<and> actorObject actor7 = 7 \<and>
   slot (prepared platform0 frame200 (frames platform0 [frame100] atlas_new)) 7 0 = Some 0 \<and>
   AtlasTiles (prepared platform0 frame200 (frames platform0 [frame100] atlas_new)) ! 0 =
     \<lparr>X = 0, Y = 0, Width = 64, Height = 64, IsUsed = True\<rparr> \<and>
   slot (swept platform0 frame200 (frames platform0 [frame100] atlas_new)) 7 0 = Some 0 \<and>
   AtlasTiles (swept platform0 frame200 (frames platform0 [frame100] atlas_new)) ! 0 =
     \<lparr>X = 0, Y = 0, Width = 64, Height = 64, IsUsed = True\<rparr>"
proof -
  have h: "push_bit 0 1 AND tilesMask actor7 \<noteq> 0 \<and> 4 \<le> faceResolution actor7 0 \<and>
      slot atlas199 (actorObject actor7) 0 = Some 0"
    "push_bit 0 1 AND tilesMask actor7_grown \<noteq> 0 \<and> 4 \<le> faceResolution actor7_grown 0 \<and>
      slot atlas199 (actorObject actor7_grown) 0 = Some 0"
    by code_simp+
  have b: "\<bar>uint (tileResolution (faceResolution actor7 0)) - int (Width (AtlasTiles atlas199 ! 0))\<bar> = 0"
    "\<bar>uint (tileResolution (faceResolution actor7_grown 0)) - int (Width (AtlasTiles atlas199 ! 0))\<bar> = 128"
    by code_simp+
  note K = tile_reuse [where i = 0 and a = actor7 and d = atlas199 and t = 0
      and anyTile = False and dirty = False, THEN conjunct1, rule_format, OF h(1)]
  note P = tile_reuse [where i = 0 and a = actor7_grown and d = atlas199 and t = 0
      and anyTile = False and dirty = False, THEN conjunct1, rule_format, OF h(2)]
  have k: "face actor7 0 (atlas199, False, False) = (atlas199, True, False)"
    using K [THEN conjunct1] b(1) by simp
  have p: "face actor7_grown 0 (atlas199, False, False) =
           (case fst (Insert (unat (tileResolution (faceResolution actor7_grown 0)))
                        (unat (tileResolution (faceResolution actor7_grown 0)))
                        (Free 0 (AtlasTiles atlas199))) of
              Some t' \<Rightarrow>
                (set_tile (actorObject actor7_grown) 0 (Some t')
                   (atlas199\<lparr>AtlasTiles := snd (Insert (unat (tileResolution (faceResolution actor7_grown 0)))
                        (unat (tileResolution (faceResolution actor7_grown 0)))
                        (Free 0 (AtlasTiles atlas199)))\<rparr>),
                 True, True)
            | None \<Rightarrow>
                ((set_tile (actorObject actor7_grown) 0 None
                   (atlas199\<lparr>AtlasTiles := snd (Insert (unat (tileResolution (faceResolution actor7_grown 0)))
                        (unat (tileResolution (faceResolution actor7_grown 0)))
                        (Free 0 (AtlasTiles atlas199)))\<rparr>))
                   \<lparr>LastFrameAtlasInsertFail := CurrentFrame atlas199\<rparr>,
                 False, False))"
    using P [THEN conjunct2] b(2) by simp
  have p1: "AtlasTiles (fst (face actor7_grown 0 (atlas199, False, False))) =
     [\<lparr>X = 0, Y = 0, Width = 64, Height = 64, IsUsed = False\<rparr>,
      \<lparr>X = 0, Y = 64, Width = 64, Height = 192, IsUsed = False\<rparr>,
      \<lparr>X = 64, Y = 0, Width = 192, Height = 192, IsUsed = True\<rparr>,
      \<lparr>X = 64, Y = 192, Width = 192, Height = 64, IsUsed = False\<rparr>]"
    unfolding p by code_simp
  have p2: "slot (fst (face actor7_grown 0 (atlas199, False, False))) 7 0 = Some 2"
    unfolding p by code_simp
  have p3: "snd (face actor7_grown 0 (atlas199, False, False)) = (True, True)"
    unfolding p by code_simp
  have f: "Objects atlas_new = []" "draws frame200 = [actor7]" "actorObject actor7 = 7"
    by (simp_all add: atlas_new_def frame200_def actor7_def)
  have s: "slot (prepared platform0 frame200 (frames platform0 [frame100] atlas_new)) 7 0 = Some 0"
    "AtlasTiles (prepared platform0 frame200 (frames platform0 [frame100] atlas_new)) ! 0 =
     \<lparr>X = 0, Y = 0, Width = 64, Height = 64, IsUsed = True\<rparr>"
    by code_simp+
  have band: "push_bit 0 1 AND tilesMask actor7 \<noteq> 0 \<and> 4 \<le> faceResolution actor7 0 \<and>
       \<bar>uint (tileResolution (faceResolution actor7 0)) -
        int (Width (AtlasTiles (prepared platform0 frame200 (frames platform0 [frame100] atlas_new)) ! 0))\<bar> < 32"
    by code_simp
  have hyp: "Objects atlas_new = [] \<and> (0 :: nat) < 6 \<and>
    slot (prepared platform0 frame200 (frames platform0 [frame100] atlas_new)) 7 0 = Some 0 \<and>
    (\<exists>b \<in> set (draws frame200). actorObject b = 7) \<and>
    (\<forall>b \<in> set (draws frame200). actorObject b = 7 \<longrightarrow>
       push_bit 0 1 AND tilesMask b \<noteq> 0 \<and> 4 \<le> faceResolution b 0 \<and>
       \<bar>uint (tileResolution (faceResolution b 0)) -
        int (Width (AtlasTiles (prepared platform0 frame200 (frames platform0 [frame100] atlas_new)) ! 0))\<bar> < 32)"
    using f(1,3) s(1) band unfolding f(2) by simp
  note S = tile_reuse [where i = 0 and d0 = atlas_new and pf = platform0 and e = frame200
      and es = "[frame100]" and k = 7 and u = 0, THEN conjunct2, rule_format, OF hyp]
  have q1: "slot (swept platform0 frame200 (frames platform0 [frame100] atlas_new)) 7 0 = Some 0"
    using S by (rule conjunct1)
  have q2: "AtlasTiles (swept platform0 frame200 (frames platform0 [frame100] atlas_new)) ! 0 =
     \<lparr>X = 0, Y = 0, Width = 64, Height = 64, IsUsed = True\<rparr>"
    using S [THEN conjunct2, THEN conjunct1] s(2) by simp
  from h(1) b(1) k h(2) b(2) p1 p2 p3 f s q1 q2 show ?thesis by (intro conjI) simp_all
qed

section \<open>Faces too small for a tile\<close>

text \<open>
  Claim C6. For a face that \<^verbatim>\<open>RasterizeActor\<close> processes (its bit of the mask is set)
  with a resolution below 4 texels, the turn of the loop does exactly this: if the object
  has a tile for the face, that tile is freed and the pointer of the face is set to null;
  otherwise nothing changes. The packer is the old one or the old one with that tile
  freed, so no insertion is made, no failed insertion is recorded, and \<^verbatim>\<open>anyTile\<close> and
  \<^verbatim>\<open>dirty\<close> stay as they were. In a cache of objects with six tile pointers each the
  pointer of the face is null afterwards and every other pointer is as before.
\<close>

theorem small_face_skipped:
  assumes "push_bit i 1 AND tilesMask a \<noteq> 0" and "faceResolution a i < 4"
  shows "face a i (d, anyTile, dirty) =
       (case slot d (actorObject a) i of
          None \<Rightarrow> (d, anyTile, dirty)
        | Some t \<Rightarrow>
            (set_tile (actorObject a) i None (d\<lparr>AtlasTiles := Free t (AtlasTiles d)\<rparr>),
             anyTile, dirty)) \<and>
     AtlasTiles (fst (face a i (d, anyTile, dirty))) =
       (case slot d (actorObject a) i of
          None \<Rightarrow> AtlasTiles d
        | Some t \<Rightarrow> Free t (AtlasTiles d)) \<and>
     LastFrameAtlasInsertFail (fst (face a i (d, anyTile, dirty))) = LastFrameAtlasInsertFail d \<and>
     (\<forall>t. slot d (actorObject a) i = Some t \<and> t < length (AtlasTiles d) \<longrightarrow>
        AtlasTiles (fst (face a i (d, anyTile, dirty))) ! t = (AtlasTiles d ! t)\<lparr>IsUsed := False\<rparr>) \<and>
     (shape (Objects d) \<and> i < 6 \<longrightarrow>
        slot (fst (face a i (d, anyTile, dirty))) (actorObject a) i = None \<and>
        (\<forall>k j. j < 6 \<and> (k, j) \<noteq> (actorObject a, i) \<longrightarrow>
           slot (fst (face a i (d, anyTile, dirty))) k j = slot d k j))"
proof -
  note F = face_small [OF assms, of d anyTile dirty]
  have 2: "AtlasTiles (fst (face a i (d, anyTile, dirty))) =
       (case slot d (actorObject a) i of
          None \<Rightarrow> AtlasTiles d
        | Some t \<Rightarrow> Free t (AtlasTiles d))"
    unfolding F by (simp add: set_tile_fields split: option.splits)
  have 3: "LastFrameAtlasInsertFail (fst (face a i (d, anyTile, dirty))) = LastFrameAtlasInsertFail d"
    unfolding F by (simp add: set_tile_fields split: option.splits)
  have 4: "AtlasTiles (fst (face a i (d, anyTile, dirty))) ! t = (AtlasTiles d ! t)\<lparr>IsUsed := False\<rparr>"
    if "slot d (actorObject a) i = Some t" "t < length (AtlasTiles d)" for t
    unfolding 2 using that by (simp add: Free_nth)
  have 5: "slot (fst (face a i (d, anyTile, dirty))) (actorObject a) i = None"
    if "shape (Objects d)" "i < 6"
    using assms by (auto simp: face_slot [OF that] written_def split: option.splits)
  have 6: "slot (fst (face a i (d, anyTile, dirty))) k j = slot d k j"
    if "shape (Objects d)" "i < 6" "j < 6" "(k, j) \<noteq> (actorObject a, i)" for k j
    by (rule slot_step_others [OF face_effect [OF that(1,2)] that(3,4)])
  from 4 have f4: "\<forall>t. slot d (actorObject a) i = Some t \<and> t < length (AtlasTiles d) \<longrightarrow>
        AtlasTiles (fst (face a i (d, anyTile, dirty))) ! t = (AtlasTiles d ! t)\<lparr>IsUsed := False\<rparr>"
    by blast
  from 5 6 have 56: "shape (Objects d) \<and> i < 6 \<longrightarrow>
        slot (fst (face a i (d, anyTile, dirty))) (actorObject a) i = None \<and>
        (\<forall>k j. j < 6 \<and> (k, j) \<noteq> (actorObject a, i) \<longrightarrow>
           slot (fst (face a i (d, anyTile, dirty))) k j = slot d k j)"
    by blast
  from F 2 3 f4 56 show ?thesis by (intro conjI)
qed

theorem small_face_skipped_witness:
  "push_bit 0 1 AND tilesMask actor7_far \<noteq> 0 \<and> faceResolution actor7_far 0 < 4 \<and>
   slot atlas199 (actorObject actor7_far) 0 = Some 0 \<and>
   AtlasTiles atlas199 =
     [\<lparr>X = 0, Y = 0, Width = 64, Height = 64, IsUsed = True\<rparr>,
      free_tile 0 64 64 192, free_tile 64 0 192 256] \<and>
   AtlasTiles (fst (face actor7_far 0 (atlas199, False, False))) =
     [\<lparr>X = 0, Y = 0, Width = 64, Height = 64, IsUsed = False\<rparr>,
      free_tile 0 64 64 192, free_tile 64 0 192 256] \<and>
   slot (fst (face actor7_far 0 (atlas199, False, False))) (actorObject actor7_far) 0 = None \<and>
   snd (face actor7_far 0 (atlas199, False, False)) = (False, False) \<and>
   LastFrameAtlasInsertFail (fst (face actor7_far 0 (atlas199, False, False))) = 195 \<and>
   push_bit 1 1 AND tilesMask actor7_far \<noteq> 0 \<and> faceResolution actor7_far 1 < 4 \<and>
   slot atlas199 (actorObject actor7_far) 1 = None \<and>
   face actor7_far 1 (atlas199, False, False) = (atlas199, False, False)"
proof -
  have h: "push_bit 0 1 AND tilesMask actor7_far \<noteq> 0" "faceResolution actor7_far 0 < 4"
    "push_bit 1 1 AND tilesMask actor7_far \<noteq> 0" "faceResolution actor7_far 1 < 4"
    by (simp_all add: actor7_far_def actor7_def)
  have s: "slot atlas199 (actorObject actor7_far) 0 = Some 0"
    "slot atlas199 (actorObject actor7_far) 1 = None"
    "shape (Objects atlas199)"
    by code_simp+
  have p: "AtlasTiles atlas199 =
     [\<lparr>X = 0, Y = 0, Width = 64, Height = 64, IsUsed = True\<rparr>,
      free_tile 0 64 64 192, free_tile 64 0 192 256]"
    "Free 0 (AtlasTiles atlas199) =
     [\<lparr>X = 0, Y = 0, Width = 64, Height = 64, IsUsed = False\<rparr>,
      free_tile 0 64 64 192, free_tile 64 0 192 256]"
    "LastFrameAtlasInsertFail atlas199 = 195"
    by code_simp+
  note A = small_face_skipped [OF h(1,2), of atlas199 False False]
  note B = small_face_skipped [OF h(3,4), of atlas199 False False]
  have a1: "AtlasTiles (fst (face actor7_far 0 (atlas199, False, False))) =
     [\<lparr>X = 0, Y = 0, Width = 64, Height = 64, IsUsed = False\<rparr>,
      free_tile 0 64 64 192, free_tile 64 0 192 256]"
    using A [THEN conjunct2, THEN conjunct1] by (simp add: s p(2))
  have a2: "slot (fst (face actor7_far 0 (atlas199, False, False))) (actorObject actor7_far) 0 = None"
    using A [THEN conjunct2, THEN conjunct2, THEN conjunct2, THEN conjunct2] s(3) by simp
  have a3: "snd (face actor7_far 0 (atlas199, False, False)) = (False, False)"
    using A [THEN conjunct1] by (simp add: s)
  have a4: "LastFrameAtlasInsertFail (fst (face actor7_far 0 (atlas199, False, False))) = 195"
    using A [THEN conjunct2, THEN conjunct2, THEN conjunct1] p(3) by simp
  have b: "face actor7_far 1 (atlas199, False, False) = (atlas199, False, False)"
    using B [THEN conjunct1] unfolding s(2) by simp
  from h s(1,2) p(1) a1 a2 a3 a4 b show ?thesis by (intro conjI)
qed

section \<open>Objects and their tiles\<close>

text \<open>
  Claim C7, amended. In any run of \<^verbatim>\<open>Render\<close> that starts with an empty cache and in
  which no frame draws the same object twice, after every call the cache has an entry for an
  object exactly when one of its six tile pointers is set. An entry comes into being in
  the loop over the faces only: a turn of the loop creates the entry of an object that has
  none exactly when the face is selected, has a resolution of at least 4 texels and
  \<^verbatim>\<open>Insert\<close> succeeds; \<^verbatim>\<open>RasterizeActor\<close> leaves the entries of all other objects as they
  are.
\<close>

theorem entry_iff_tile:
  assumes "Objects d0 = []" and "\<forall>e \<in> set es. distinct (map actorObject (draws e))"
  shows "(TryGet k (Objects (frames pf es d0)) \<noteq> None \<longleftrightarrow>
        (\<exists>i < 6. slot (frames pf es d0) k i \<noteq> None)) \<and>
     (TryGet (actorObject a) (Objects d) = None \<longrightarrow>
        (TryGet (actorObject a) (Objects (fst (face a j (d, anyTile, dirty)))) \<noteq> None \<longleftrightarrow>
           push_bit j 1 AND tilesMask a \<noteq> 0 \<and> 4 \<le> faceResolution a j \<and>
           fst (Insert (unat (tileResolution (faceResolution a j)))
                  (unat (tileResolution (faceResolution a j))) (AtlasTiles d)) \<noteq> None)) \<and>
     (k \<noteq> actorObject a \<longrightarrow> TryGet k (Objects (RasterizeActor a d)) = TryGet k (Objects d))"
proof -
  have "shape (Objects d0)" "occupied d0" using assms(1) by (simp_all add: shape_def occupied_Nil)
  from frames_occupied [OF this assms(2), of pf]
  have oc: "occupied (frames pf es d0)" by simp
  have 1: "TryGet k (Objects (frames pf es d0)) \<noteq> None \<longleftrightarrow>
        (\<exists>i < 6. slot (frames pf es d0) k i \<noteq> None)"
  proof (cases "TryGet k (Objects (frames pf es d0))")
    case None
    then show ?thesis by (simp add: slot_def)
  next
    case (Some ob)
    with oc have "\<exists>i < 6. Tiles ob ! i \<noteq> None" by (simp add: occupied_def)
    with Some show ?thesis by (simp add: slot_def)
  qed
  from 1 face_creates [of a d j anyTile dirty] RasterizeActor_other_entry [of k a d]
  show ?thesis by (intro conjI impI)
qed

theorem entry_iff_tile_witness:
  "Objects atlas_new = [] \<and>
   distinct (map actorObject (draws frame100)) \<and> distinct (map actorObject (draws frame200)) \<and>
   slot (frames platform0 [frame100, frame200] atlas_new) 7 0 = Some 0 \<and>
   TryGet 7 (Objects (frames platform0 [frame100, frame200] atlas_new)) \<noteq> None \<and>
   TryGet 8 (Objects (frames platform0 [frame100, frame200] atlas_new)) = None \<and>
   slot (frames platform0 [frame100, frame200] atlas_new) 8 0 = None \<and>
   TryGet (actorObject actor7) (Objects atlas100) = None \<and>
   TryGet (actorObject actor7) (Objects (fst (face actor7 0 (atlas100, False, False)))) \<noteq> None"
proof -
  have h1: "Objects atlas_new = []" by (simp add: atlas_new_def)
  have d: "distinct (map actorObject (draws frame100))" "distinct (map actorObject (draws frame200))"
    by (simp_all add: frame100_def frame200_def)
  then have h2: "\<forall>e \<in> set [frame100, frame200]. distinct (map actorObject (draws e))" by simp
  have v: "slot (frames platform0 [frame100, frame200] atlas_new) 7 0 = Some 0"
    "TryGet 8 (Objects (frames platform0 [frame100, frame200] atlas_new)) = None"
    "TryGet (actorObject actor7) (Objects atlas100) = None"
    "push_bit 0 1 AND tilesMask actor7 \<noteq> 0" "4 \<le> faceResolution actor7 0"
    "fst (Insert (unat (tileResolution (faceResolution actor7 0)))
                  (unat (tileResolution (faceResolution actor7 0))) (AtlasTiles atlas100)) \<noteq> None"
    by code_simp+
  note T7 = entry_iff_tile [OF h1 h2, of 7 platform0 actor7 atlas100 0 False False]
  note T8 = entry_iff_tile [OF h1 h2, of 8 platform0 actor7 atlas100 0 False False]
  from T7 v(1) have a: "TryGet 7 (Objects (frames platform0 [frame100, frame200] atlas_new)) \<noteq> None"
    by auto
  from T8 v(2) have b: "slot (frames platform0 [frame100, frame200] atlas_new) 8 0 = None"
    by auto
  from T7 v(3-6)
  have c: "TryGet (actorObject actor7) (Objects (fst (face actor7 0 (atlas100, False, False)))) \<noteq> None"
    by blast
  from h1 d v(1) a v(2) b v(3) c show ?thesis by (intro conjI)
qed

text \<open>
  Claim C7 as it is worded does not hold. In frame 100 the same object is drawn twice:
  the first call gives it six tiles and marks it as used, the second call, with faces of
  less than 4 texels, frees all six and returns early. The removal of unused objects keeps
  the entry, because it is marked as used in this frame, with all its tile pointers null.
\<close>

theorem entry_iff_tile_counterexample:
  "TryGet 7 (Objects (frames platform0 [frame100_twice] atlas_new)) =
     Some \<lparr>LastFrameUsed = 100, LastFrameDirty = 100, Actor = 1,
           Tiles = [None, None, None, None, None, None]\<rparr> \<and>
   slot (frames platform0 [frame100_twice] atlas_new) 7 0 = None \<and>
   slot (frames platform0 [frame100_twice] atlas_new) 7 1 = None \<and>
   slot (frames platform0 [frame100_twice] atlas_new) 7 2 = None \<and>
   slot (frames platform0 [frame100_twice] atlas_new) 7 3 = None \<and>
   slot (frames platform0 [frame100_twice] atlas_new) 7 4 = None \<and>
   slot (frames platform0 [frame100_twice] atlas_new) 7 5 = None"
  by code_simp

section \<open>The time-sliced redraw\<close>

text \<open>
  Claim C8, amended. When after the loop over the faces the object has a tile on a face
  that the mask of the call selects, \<^verbatim>\<open>RasterizeActor\<close> marks the object as used in the
  current frame, and it marks it dirty, setting \<^verbatim>\<open>LastFrameDirty\<close> to the current frame
  and adding it to the dirty objects, exactly when a face has inserted a tile or the
  number of frames since \<^verbatim>\<open>LastFrameDirty\<close> has reached the period of the object. The
  period is 120 frames for an actor with the static lightmap flag and 4 frames otherwise,
  plus the bits of that number that are set in the word \<open>D\<close> of the identifier of the
  actor, which is at most as much again.
\<close>

theorem time_sliced_redraw:
  assumes "shape (Objects d)" and "i < 6" and "push_bit i 1 AND tilesMask a \<noteq> 0"
    and "slot (fst (fold (face a) [0..<6] (d, False, False))) (actorObject a) i \<noteq> None"
  shows "\<exists>ob. TryGet (actorObject a) (Objects (fst (fold (face a) [0..<6] (d, False, False)))) = Some ob \<and>
     TryGet (actorObject a) (Objects (RasterizeActor a d)) =
       Some (ob\<lparr>Actor := actor a, LastFrameUsed := CurrentFrame d,
                LastFrameDirty :=
                  (if snd (snd (fold (face a) [0..<6] (d, False, False))) \<or>
                      (if actorStatic a then 120 else 4) +
                        unat (actorID_D a AND (if actorStatic a then 120 else 4))
                        \<le> unat (CurrentFrame d - LastFrameDirty ob)
                   then CurrentFrame d else LastFrameDirty ob)\<rparr>) \<and>
     dirtyObjectsBuffer (RasterizeActor a d) =
       (if snd (snd (fold (face a) [0..<6] (d, False, False))) \<or>
           (if actorStatic a then 120 else 4) +
             unat (actorID_D a AND (if actorStatic a then 120 else 4))
             \<le> unat (CurrentFrame d - LastFrameDirty ob)
        then dirtyObjectsBuffer d @ [actorObject a] else dirtyObjectsBuffer d) \<and>
     unat (actorID_D a AND (if actorStatic a then 120 else 4)) \<le> (if actorStatic a then 120 else 4)"
proof -
  obtain d' any dirty where f: "fold (face a) [0..<6] (d, False, False) = (d', any, dirty)"
    by (cases "fold (face a) [0..<6] (d, False, False)") auto
  from faces6_any_iff [OF assms(1), of a] assms(2-4) have "any" by (auto simp: f)
  with f have f': "fold (face a) [0..<6] (d, False, False) = (d', True, dirty)" by simp
  from faces_any_entry [of a "[0..<6]" "(d, False, False)"] f'
  obtain ob where ob: "TryGet (actorObject a) (Objects d') = Some ob" by auto
  have cf: "CurrentFrame d' = CurrentFrame d"
    using faces_CurrentFrame [of a "[0..<6]" "(d, False, False)"] f' by simp
  have db: "dirtyObjectsBuffer d' = dirtyObjectsBuffer d"
    using faces_dirtyObjectsBuffer [of a "[0..<6]" "(d, False, False)"] f' by simp
  note R = RasterizeActor_any_tile [OF f' ob]
  have due: "redraw_due a (CurrentFrame d) ob \<longleftrightarrow>
      (if actorStatic a then 120 else 4) + unat (actorID_D a AND (if actorStatic a then 120 else 4))
        \<le> unat (CurrentFrame d - LastFrameDirty ob)"
    by (rule redraw_due_unat)
  have 1: "TryGet (actorObject a) (Objects (RasterizeActor a d)) =
       Some (ob\<lparr>Actor := actor a, LastFrameUsed := CurrentFrame d,
                LastFrameDirty :=
                  (if dirty \<or> redraw_due a (CurrentFrame d) ob
                   then CurrentFrame d else LastFrameDirty ob)\<rparr>)"
    unfolding R by (simp add: TryGet_modify ob cf)
  have 2: "dirtyObjectsBuffer (RasterizeActor a d) =
       (if dirty \<or> redraw_due a (CurrentFrame d) ob
        then dirtyObjectsBuffer d @ [actorObject a] else dirtyObjectsBuffer d)"
    unfolding R by (simp add: cf db)
  have 3: "unat (actorID_D a AND (if actorStatic a then 120 else 4)) \<le> (if actorStatic a then 120 else 4)"
    using stagger_unat(2) [of a] by (simp add: redrawFramesCount_def split: if_splits)
  from ob 1 2 3 show ?thesis unfolding due f' by simp
qed

theorem time_sliced_redraw_witness:
  "slot (fst (fold (face actor7_front) [0..<6] (atlas203, False, False))) (actorObject actor7_front) 0 \<noteq> None \<and>
   snd (snd (fold (face actor7_front) [0..<6] (atlas203, False, False))) = False \<and>
   TryGet 7 (Objects atlas203) =
     Some \<lparr>LastFrameUsed = 199, LastFrameDirty = 199, Actor = 1,
           Tiles = [Some 0, None, None, None, None, None]\<rparr> \<and>
   TryGet 7 (Objects (RasterizeActor actor7_front atlas203)) =
     Some \<lparr>LastFrameUsed = 203, LastFrameDirty = 203, Actor = 1,
           Tiles = [Some 0, None, None, None, None, None]\<rparr> \<and>
   dirtyObjectsBuffer (RasterizeActor actor7_front atlas203) = [7] \<and>
   TryGet 7 (Objects (RasterizeActor actor7_front atlas202)) =
     Some \<lparr>LastFrameUsed = 202, LastFrameDirty = 199, Actor = 1,
           Tiles = [Some 0, None, None, None, None, None]\<rparr> \<and>
   dirtyObjectsBuffer (RasterizeActor actor7_front atlas202) = [] \<and>
   TryGet 7 (Objects (RasterizeActor actor7_front_odd atlas203)) =
     Some \<lparr>LastFrameUsed = 203, LastFrameDirty = 199, Actor = 1,
           Tiles = [Some 0, None, None, None, None, None]\<rparr> \<and>
   dirtyObjectsBuffer (RasterizeActor actor7_front_odd atlas203) = []"
proof -
  have h: "shape (Objects atlas203)" "(0 :: nat) < 6"
    "push_bit 0 1 AND tilesMask actor7_front \<noteq> 0"
    "slot (fst (fold (face actor7_front) [0..<6] (atlas203, False, False))) (actorObject actor7_front) 0 \<noteq> None"
    by code_simp+
  have v: "fst (fold (face actor7_front) [0..<6] (atlas203, False, False)) = atlas203"
    "snd (snd (fold (face actor7_front) [0..<6] (atlas203, False, False))) = False"
    "TryGet 7 (Objects atlas203) =
     Some \<lparr>LastFrameUsed = 199, LastFrameDirty = 199, Actor = 1,
           Tiles = [Some 0, None, None, None, None, None]\<rparr>"
    "actorObject actor7_front = 7" "actor actor7_front = 1" "actorStatic actor7_front = False"
    "actorID_D actor7_front = 0" "CurrentFrame atlas203 = 203" "dirtyObjectsBuffer atlas203 = []"
    by code_simp+
  have h2: "shape (Objects atlas202)"
    "slot (fst (fold (face actor7_front) [0..<6] (atlas202, False, False))) (actorObject actor7_front) 0 \<noteq> None"
    by code_simp+
  have v2: "fst (fold (face actor7_front) [0..<6] (atlas202, False, False)) = atlas202"
    "snd (snd (fold (face actor7_front) [0..<6] (atlas202, False, False))) = False"
    "TryGet 7 (Objects atlas202) =
     Some \<lparr>LastFrameUsed = 199, LastFrameDirty = 199, Actor = 1,
           Tiles = [Some 0, None, None, None, None, None]\<rparr>"
    "CurrentFrame atlas202 = 202" "dirtyObjectsBuffer atlas202 = []"
    by code_simp+
  have h3: "push_bit 0 1 AND tilesMask actor7_front_odd \<noteq> 0"
    "slot (fst (fold (face actor7_front_odd) [0..<6] (atlas203, False, False))) (actorObject actor7_front_odd) 0 \<noteq> None"
    by code_simp+
  have v3: "fst (fold (face actor7_front_odd) [0..<6] (atlas203, False, False)) = atlas203"
    "snd (snd (fold (face actor7_front_odd) [0..<6] (atlas203, False, False))) = False"
    "actorObject actor7_front_odd = 7" "actor actor7_front_odd = 1"
    "actorStatic actor7_front_odd = False" "actorID_D actor7_front_odd = 4"
    by code_simp+
  have a: "TryGet 7 (Objects (RasterizeActor actor7_front atlas203)) =
     Some \<lparr>LastFrameUsed = 203, LastFrameDirty = 203, Actor = 1,
           Tiles = [Some 0, None, None, None, None, None]\<rparr>"
    "dirtyObjectsBuffer (RasterizeActor actor7_front atlas203) = [7]"
    using time_sliced_redraw [OF h] unfolding v by (simp_all add: v)
  have b: "TryGet 7 (Objects (RasterizeActor actor7_front atlas202)) =
     Some \<lparr>LastFrameUsed = 202, LastFrameDirty = 199, Actor = 1,
           Tiles = [Some 0, None, None, None, None, None]\<rparr>"
    "dirtyObjectsBuffer (RasterizeActor actor7_front atlas202) = []"
    using time_sliced_redraw [OF h2(1) h(2,3) h2(2)] unfolding v v2 by (simp_all add: v v2)
  have c: "TryGet 7 (Objects (RasterizeActor actor7_front_odd atlas203)) =
     Some \<lparr>LastFrameUsed = 203, LastFrameDirty = 199, Actor = 1,
           Tiles = [Some 0, None, None, None, None, None]\<rparr>"
    "dirtyObjectsBuffer (RasterizeActor actor7_front_odd atlas203) = []"
    using time_sliced_redraw [OF h(1,2) h3] unfolding v v3 by (simp_all add: v v3)
  from h(4) v(2,3) a b c show ?thesis by (intro conjI)
qed

text \<open>
  Claim C8 as it is worded, for every object that has a tile after the faces are processed,
  does not hold. The object has a tile on its first face and is drawn with a mask that
  selects the second face only, which is too small for a tile. After the loop the object
  still has its tile and 4 frames, its period, have passed since it was last dirty, yet
  \<^verbatim>\<open>RasterizeActor\<close> returns early: the object is neither marked as used nor dirty.
\<close>

theorem time_sliced_redraw_counterexample:
  "slot (fst (fold (face actor7_side) [0..<6] (atlas203, False, False))) (actorObject actor7_side) 0 = Some 0 \<and>
   TryGet (actorObject actor7_side) (Objects (fst (fold (face actor7_side) [0..<6] (atlas203, False, False)))) =
     Some \<lparr>LastFrameUsed = 199, LastFrameDirty = 199, Actor = 1,
           Tiles = [Some 0, None, None, None, None, None]\<rparr> \<and>
   actorStatic actor7_side = False \<and>
   (4 :: nat) + unat (actorID_D actor7_side AND 4) = 4 \<and>
   unat (CurrentFrame atlas203 - 199) = 4 \<and>
   RasterizeActor actor7_side atlas203 = atlas203 \<and>
   dirtyObjectsBuffer (RasterizeActor actor7_side atlas203) = [] \<and>
   TryGet (actorObject actor7_side) (Objects (RasterizeActor actor7_side atlas203)) =
     Some \<lparr>LastFrameUsed = 199, LastFrameDirty = 199, Actor = 1,
           Tiles = [Some 0, None, None, None, None, None]\<rparr>"
  by code_simp

section \<open>The value that Render returns from the culling\<close>

text \<open>
  Claim C9, amended. On a frame on which \<^verbatim>\<open>Render\<close> gets as far as the culling with a
  cache that is not empty, the \<^verbatim>\<open>bool\<close> it returns is true exactly when a device buffer
  of the culling fails to initialise or, the chunks buffer being there, no completed sample
  of the counter exists: no slot of the ring is assigned, or the staging buffer cannot be
  mapped, or the slot still holds zero. Both cases give the same value \<^verbatim>\<open>true\<close>; when no
  initialisation fails, the value is \<^verbatim>\<open>notReady\<close>. With the chunks buffer, a completed
  sample and no failing initialisation the value is false and the culled-objects buffer
  ends the call with the larger of its old size and the counter times 16 bytes, aligned up
  to 4096 and capped at \<^verbatim>\<open>MAX_int32\<close>. The slot read is the one the call came with, unless
  the resolution changed or the cache was defragmented, which unassign it; the chunks buffer
  is there if it was before or the resolution changed.
\<close>

theorem not_ready_flag:
  assumes "proceeds pf e d" and "Objects (swept pf e d) \<noteq> []"
  shows "returned (fst (Render pf e d)) =
       (init_fails e (swept pf e d) \<or>
        (ChunksBuffer (swept pf e d) \<and> \<not> sampled e (swept pf e d))) \<and>
     fst (Render pf e d) =
       (if init_fails e (swept pf e d) then Return_true
        else Return_notReady (ChunksBuffer (swept pf e d) \<and> \<not> sampled e (swept pf e d))) \<and>
     (ChunksBuffer (swept pf e d) \<and> sampled e (swept pf e d) \<and> \<not> init_fails e (swept pf e d) \<longrightarrow>
        buffer_size (snd (Render pf e d)) =
          max (buffer_size d) (min (AlignUp (sample e (swept pf e d) * 16) 4096) MAX_int32)) \<and>
     ChunksBuffer (swept pf e d) = (ChunksBuffer d \<or> Resolution d \<noteq> resolution_of pf e) \<and>
     CulledObjectsCounterIndex (swept pf e d) =
       (if Resolution d \<noteq> resolution_of pf e \<or>
           (FrameCount e - LastFrameAtlasInsertFail d < 10 \<and>
            FrameCount e - LastFrameAtlasDefragmentation d > 60)
        then - 1 else CulledObjectsCounterIndex d)"
proof -
  note R = Render_proceeds [OF assms(1)]
  have r: "fst (Render pf e d) =
       (if init_fails e (swept pf e d) then Return_true
        else Return_notReady (ChunksBuffer (swept pf e d) \<and> \<not> sampled e (swept pf e d)))"
    unfolding R by (rule CullObjects_result [OF assms(2)])
  then have r': "returned (fst (Render pf e d)) =
       (init_fails e (swept pf e d) \<or>
        (ChunksBuffer (swept pf e d) \<and> \<not> sampled e (swept pf e d)))"
    by simp
  have b: "buffer_size (snd (Render pf e d)) =
          max (buffer_size d) (min (AlignUp (sample e (swept pf e d) * 16) 4096) MAX_int32)"
    if "ChunksBuffer (swept pf e d)" "sampled e (swept pf e d)" "\<not> init_fails e (swept pf e d)"
    unfolding R CullObjects_grown [OF assms(2) that(3)] swept_buffer
    using that(1,2) by (simp add: capacity_request_def)
  have t: "texturesAvailable e \<or> Resolution d = resolution_of pf e"
    using assms(1) by (auto simp: proceeds_def initialized_def InitializeBuffers_def Let_def split: if_splits)
  have c: "ChunksBuffer (swept pf e d) = (ChunksBuffer d \<or> Resolution d \<noteq> resolution_of pf e)"
    unfolding swept_ChunksBuffer initialized_ChunksBuffer using t by auto
  have i: "CulledObjectsCounterIndex (swept pf e d) =
       (if Resolution d \<noteq> resolution_of pf e \<or>
           (FrameCount e - LastFrameAtlasInsertFail d < 10 \<and>
            FrameCount e - LastFrameAtlasDefragmentation d > 60)
        then - 1 else CulledObjectsCounterIndex d)"
    unfolding swept_index by (rule initialized_index)
  from r r' b c i show ?thesis by (intro conjI impI) auto
qed


theorem not_ready_flag_witness:
  "proceeds platform0 frame200 atlas199_calm \<and>
   Objects (swept platform0 frame200 atlas199_calm) \<noteq> [] \<and>
   sampled frame200 (swept platform0 frame200 atlas199_calm) \<and>
   sample frame200 (swept platform0 frame200 atlas199_calm) = 300 \<and>
   \<not> init_fails frame200 (swept platform0 frame200 atlas199_calm) \<and>
   returned (fst (Render platform0 frame200 atlas199_calm)) = False \<and>
   buffer_size atlas199_calm = 4096 \<and>
   buffer_size (snd (Render platform0 frame200 atlas199_calm)) = 8192 \<and>
   proceeds platform0 frame200_unmapped atlas199_calm \<and>
   Objects (swept platform0 frame200_unmapped atlas199_calm) \<noteq> [] \<and>
   \<not> sampled frame200_unmapped (swept platform0 frame200_unmapped atlas199_calm) \<and>
   returned (fst (Render platform0 frame200_unmapped atlas199_calm)) = True"
proof -
  have h: "proceeds platform0 frame200 atlas199_calm"
    "Objects (swept platform0 frame200 atlas199_calm) \<noteq> []"
    "proceeds platform0 frame200_unmapped atlas199_calm"
    "Objects (swept platform0 frame200_unmapped atlas199_calm) \<noteq> []"
    by code_simp+
  have s: "sampled frame200 (swept platform0 frame200 atlas199_calm)"
    "sample frame200 (swept platform0 frame200 atlas199_calm) = 300"
    "\<not> init_fails frame200 (swept platform0 frame200 atlas199_calm)"
    "ChunksBuffer (swept platform0 frame200 atlas199_calm)"
    "\<not> sampled frame200_unmapped (swept platform0 frame200_unmapped atlas199_calm)"
    "ChunksBuffer (swept platform0 frame200_unmapped atlas199_calm)"
    by code_simp+
  have v: "buffer_size atlas199_calm = 4096"
    "max (buffer_size atlas199_calm) (min (AlignUp (300 * 16) 4096) MAX_int32) = 8192"
    by code_simp+
  from not_ready_flag [OF h(1,2)] s(1-4) v
  have a: "returned (fst (Render platform0 frame200 atlas199_calm)) = False"
    "buffer_size (snd (Render platform0 frame200 atlas199_calm)) = 8192"
    by simp_all
  from not_ready_flag [OF h(3,4)] s(5,6)
  have b: "returned (fst (Render platform0 frame200_unmapped atlas199_calm)) = True"
    by simp
  from h s v a b show ?thesis by (intro conjI)
qed


text \<open>
  Claim C9 as it is worded does not hold. At frame 200 slot 0 of the ring holds the
  completed sample 300 and the culled-objects buffer of 4096 bytes is too small for it; the
  initialisation of the larger buffer fails, and \<^verbatim>\<open>Render\<close> returns \<^verbatim>\<open>true\<close> although a
  completed sample exists.
\<close>

theorem not_ready_flag_counterexample:
  "proceeds platform0 frame200_failing atlas199_calm \<and>
   Objects (swept platform0 frame200_failing atlas199_calm) \<noteq> [] \<and>
   CulledObjectsCounterIndex (swept platform0 frame200_failing atlas199_calm) = 0 \<and>
   sampled frame200_failing (swept platform0 frame200_failing atlas199_calm) \<and>
   sample frame200_failing (swept platform0 frame200_failing atlas199_calm) = 300 \<and>
   returned (fst (Render platform0 frame200_failing atlas199_calm)) = True"
  by code_simp

section \<open>The culled-objects buffer only grows\<close>

text \<open>
  Claim C10, amended. Over any run of \<^verbatim>\<open>Render\<close> calls in which the device initialises the
  culled-objects buffer whenever asked, the size of that buffer never decreases. A call
  leaves the size as it is, or it finds the size strictly below the capacity it asks for and
  raises it to that capacity, which is the count in bytes aligned up to 4096 and capped at
  \<^verbatim>\<open>MAX_int32\<close>. Neither a change of resolution nor a defragmentation touches the buffer.
\<close>

theorem culled_buffer_never_shrinks:
  assumes "\<forall>e \<in> set es. culledObjectsBufferInit e = InitOk"
  shows "buffer_size d \<le> buffer_size (frames pf es d) \<and>
     (\<forall>e \<in> set es. \<forall>d'. \<exists>dc. buffer_size dc = buffer_size d' \<and>
        (buffer_size (snd (Render pf e d')) = buffer_size d' \<or>
         (buffer_size d' < capacity_request e dc \<and>
          buffer_size (snd (Render pf e d')) = capacity_request e dc \<and>
          capacity_request e dc \<le> MAX_int32 \<and>
          (capacity_request e dc = MAX_int32 \<or> 4096 dvd unat (capacity_request e dc)))))"
proof
  show "buffer_size d \<le> buffer_size (frames pf es d)"
    using assms by (rule frames_buffer_mono)
next
  show "\<forall>e \<in> set es. \<forall>d'. \<exists>dc. buffer_size dc = buffer_size d' \<and>
        (buffer_size (snd (Render pf e d')) = buffer_size d' \<or>
         (buffer_size d' < capacity_request e dc \<and>
          buffer_size (snd (Render pf e d')) = capacity_request e dc \<and>
          capacity_request e dc \<le> MAX_int32 \<and>
          (capacity_request e dc = MAX_int32 \<or> 4096 dvd unat (capacity_request e dc))))"
  proof (intro ballI allI)
    fix e d' assume "e \<in> set es"
    with assms have ok: "culledObjectsBufferInit e = InitOk" by simp
    from Render_buffer [OF ok, of d' pf] obtain dc where
      dc: "buffer_size dc = buffer_size d'"
        "buffer_size (snd (Render pf e d')) = buffer_size d' \<or>
         (buffer_size d' < capacity_request e dc \<and>
          buffer_size (snd (Render pf e d')) = capacity_request e dc)"
      by blast
    with capacity_request_bound [of e dc]
    show "\<exists>dc. buffer_size dc = buffer_size d' \<and>
        (buffer_size (snd (Render pf e d')) = buffer_size d' \<or>
         (buffer_size d' < capacity_request e dc \<and>
          buffer_size (snd (Render pf e d')) = capacity_request e dc \<and>
          capacity_request e dc \<le> MAX_int32 \<and>
          (capacity_request e dc = MAX_int32 \<or> 4096 dvd unat (capacity_request e dc))))"
      by blast
  qed
qed

theorem culled_buffer_never_shrinks_witness:
  "culledObjectsBufferInit frame100 = InitOk \<and> culledObjectsBufferInit frame200 = InitOk \<and>
   buffer_size atlas_new = 0 \<and>
   buffer_size (frames platform0 [frame100] atlas_new) = 4096 \<and>
   buffer_size (frames platform0 [frame100, frame200] atlas_new) = 8192 \<and>
   buffer_size atlas_new \<le> buffer_size (frames platform0 [frame100, frame200] atlas_new)"
proof -
  have h: "\<forall>e \<in> set [frame100, frame200]. culledObjectsBufferInit e = InitOk"
    by (simp add: frame100_def frame200_def)
  have v: "buffer_size atlas_new = 0" "buffer_size (frames platform0 [frame100] atlas_new) = 4096"
    "buffer_size (frames platform0 [frame100, frame200] atlas_new) = 8192"
    by code_simp+
  have i: "culledObjectsBufferInit frame100 = InitOk" "culledObjectsBufferInit frame200 = InitOk"
    by (simp_all add: frame100_def frame200_def)
  from culled_buffer_never_shrinks [OF h, of atlas_new platform0] i v show ?thesis by blast
qed


text \<open>
  Claim C10 as it is worded, for every sequence of frames, does not hold. At frame 200 the
  buffer of 4096 bytes is too small for the sample 300, the initialisation of the larger
  buffer fails and leaves a buffer of size 0.
\<close>

theorem culled_buffer_never_shrinks_counterexample:
  "buffer_size atlas199_calm = 4096 \<and>
   buffer_size (frames platform0 [frame200_failing] atlas199_calm) = 0 \<and>
   \<not> buffer_size atlas199_calm \<le> buffer_size (frames platform0 [frame200_failing] atlas199_calm)"
  by code_simp

end
